theory Spec2Isabelle
  imports Main
begin

section \<open>Request queue (api/queue.ts)\<close>

text \<open>
  The queue serialises asynchronous operations. JavaScript runs every callback to
  completion, so the class is modelled by its atomic segments: the body of
  \<^verbatim>\<open>enqueue\<close> (including the synchronous prefix of \<^verbatim>\<open>processNext\<close>),
  the continuation of \<^verbatim>\<open>processNext\<close> after \<^verbatim>\<open>await item.execute()\<close>, the
  per-item timer callback and \<^verbatim>\<open>clear\<close>.

  The fields \<open>queue\<close> and \<open>processing\<close> are the fields of the class. The field
  \<open>timers\<close> is the set of armed timers of the runtime. The remaining fields are
  bookkeeping of what the code did: which items were created (\<open>accepted\<close>, in arrival
  order), which operations are running (\<open>executing\<close>), the order in which operations
  were started (\<open>started\<close>) and the calls of \<^verbatim>\<open>resolve\<close>/\<^verbatim>\<open>reject\<close> (\<open>settled\<close>).
  An item is identified by \<open>ident\<close>, which stands for the identity of the item object
  (and of its timer); identities are handed out in order of creation.
\<close>

definition maxQueueSize :: nat where
  "maxQueueSize = 100"

definition queueFullMessage :: string where
  "queueFullMessage = ''Queue is full (max 100 requests)''"

definition queueTimeoutMessage :: string where
  "queueTimeoutMessage = ''Request timeout while waiting in queue''"

definition queueClearedMessage :: string where
  "queueClearedMessage = ''Queue cleared - server shutting down''"

text \<open>
  How a promise was settled: by the worker with the outcome of the operation
  (\<open>Inr\<close> a result passed to \<^verbatim>\<open>resolve\<close>, \<open>Inl\<close> the message of the error passed to
  \<^verbatim>\<open>reject\<close>), or by the queue itself with one of its own errors.
\<close>

datatype 'v settlement = ByOperation "string + 'v" | ByQueue string

record 'op QueueItem =
  ident :: nat
  execute :: 'op

record ('op, 'v) RequestQueue =
  queue :: "'op QueueItem list"
  processing :: bool
  timers :: "nat list"
  nextIdent :: nat
  accepted :: "(nat \<times> 'op) list"
  executing :: "'op QueueItem list"
  started :: "nat list"
  settled :: "(nat \<times> 'v settlement) list"

definition emptyQueue :: "('op, 'v) RequestQueue" where
  "emptyQueue = \<lparr> queue = [], processing = False, timers = [], nextIdent = 0,
     accepted = [], executing = [], started = [], settled = [] \<rparr>"

text \<open>
  \<^verbatim>\<open>processNext\<close> up to its \<^verbatim>\<open>await\<close>: guard, set the flag, shift the head, clear its
  timer, call \<^verbatim>\<open>item.execute()\<close>.
\<close>

definition processNext :: "('op, 'v) RequestQueue \<Rightarrow> ('op, 'v) RequestQueue" where
  "processNext q =
     (if processing q \<or> length (queue q) = 0 then q
      else (case queue q of
              [] \<Rightarrow> q\<lparr>processing := False\<rparr>
            | item # rest \<Rightarrow>
                q\<lparr>processing := True, queue := rest,
                  timers := removeAll (ident item) (timers q),
                  executing := executing q @ [item],
                  started := started q @ [ident item]\<rparr>))"

text \<open>
  \<^verbatim>\<open>enqueue\<close>: the capacity check throws before an item exists; otherwise the item is
  created, its timer armed, the item pushed and \<^verbatim>\<open>processNext\<close> called. The result is
  the error message, or the identity of the new item (whose promise the caller holds).
\<close>

definition enqueue :: "'op \<Rightarrow> ('op, 'v) RequestQueue \<Rightarrow> (string + nat) \<times> ('op, 'v) RequestQueue" where
  "enqueue op q =
     (if length (queue q) \<ge> maxQueueSize then (Inl queueFullMessage, q)
      else
        let i = nextIdent q;
            item = \<lparr> ident = i, execute = op \<rparr>;
            q1 = q\<lparr>nextIdent := Suc i, accepted := accepted q @ [(i, op)],
                   timers := timers q @ [i]\<rparr>;
            q2 = q1\<lparr>queue := queue q1 @ [item]\<rparr>
        in (Inr i, processNext q2))"

text \<open>\<^verbatim>\<open>indexOf\<close> followed by \<^verbatim>\<open>splice(index, 1)\<close>: the first occurrence is removed.\<close>

fun spliceItem :: "nat \<Rightarrow> 'op QueueItem list \<Rightarrow> 'op QueueItem list" where
  "spliceItem i [] = []"
| "spliceItem i (x # xs) = (if ident x = i then xs else x # spliceItem i xs)"

text \<open>The callback given to \<^verbatim>\<open>setTimeout\<close> in \<^verbatim>\<open>enqueue\<close>.\<close>

definition timeoutCallback :: "nat \<Rightarrow> ('op, 'v) RequestQueue \<Rightarrow> ('op, 'v) RequestQueue" where
  "timeoutCallback i q =
     (if i \<in> set (map ident (queue q))
      then q\<lparr>queue := spliceItem i (queue q),
             settled := settled q @ [(i, ByQueue queueTimeoutMessage)]\<rparr>
      else q)"

text \<open>The runtime fires a timer only while it is armed, and once.\<close>

definition timerFire :: "nat \<Rightarrow> ('op, 'v) RequestQueue \<Rightarrow> ('op, 'v) RequestQueue" where
  "timerFire i q =
     (if i \<in> set (timers q) then timeoutCallback i (q\<lparr>timers := removeAll i (timers q)\<rparr>)
      else q)"

text \<open>
  The continuation of \<^verbatim>\<open>processNext\<close> for the item \<open>i\<close> once its operation has
  finished: \<open>exec\<close> gives the outcome of running an operation. The promise of the item
  is settled with it, the flag is reset and \<^verbatim>\<open>processNext\<close> is called again.
\<close>

definition finishItem ::
  "('op \<Rightarrow> string + 'v) \<Rightarrow> nat \<Rightarrow> ('op, 'v) RequestQueue \<Rightarrow> ('op, 'v) RequestQueue" where
  "finishItem exec i q =
     (case find (\<lambda>it. ident it = i) (executing q) of
        None \<Rightarrow> q
      | Some item \<Rightarrow>
          processNext
            (q\<lparr>executing := filter (\<lambda>it. ident it \<noteq> i) (executing q),
               settled := settled q @ [(i, ByOperation (exec (execute item)))],
               processing := False\<rparr>))"

text \<open>\<^verbatim>\<open>clear\<close>: every waiting item has its timer cleared and is rejected.\<close>

definition clear :: "('op, 'v) RequestQueue \<Rightarrow> ('op, 'v) RequestQueue" where
  "clear q =
     q\<lparr>timers := filter (\<lambda>t. t \<notin> set (map ident (queue q))) (timers q),
       settled := settled q @ map (\<lambda>it. (ident it, ByQueue queueClearedMessage)) (queue q),
       queue := []\<rparr>"

datatype 'op qevent = Enqueue 'op | Finish nat | TimerFire nat | Clear

fun qstep :: "('op \<Rightarrow> string + 'v) \<Rightarrow> 'op qevent \<Rightarrow> ('op, 'v) RequestQueue \<Rightarrow> ('op, 'v) RequestQueue" where
  "qstep exec (Enqueue op) q = snd (enqueue op q)"
| "qstep exec (Finish i) q = finishItem exec i q"
| "qstep exec (TimerFire i) q = timerFire i q"
| "qstep exec Clear q = clear q"

definition qrun ::
  "('op \<Rightarrow> string + 'v) \<Rightarrow> 'op qevent list \<Rightarrow> ('op, 'v) RequestQueue \<Rightarrow> ('op, 'v) RequestQueue" where
  "qrun exec evs q = fold (qstep exec) evs q"

text \<open>The items the worker has settled, in the order of settling.\<close>

fun byOperation :: "(nat \<times> 'v settlement) \<Rightarrow> bool" where
  "byOperation (i, ByOperation r) = True"
| "byOperation (i, ByQueue m) = False"

definition completed :: "('op, 'v) RequestQueue \<Rightarrow> nat list" where
  "completed q = map fst (filter byOperation (settled q))"

section \<open>Session manager (browser/sessions.ts)\<close>

text \<open>
  The registry is a JavaScript \<^verbatim>\<open>Map\<close>: its entries are kept in insertion order, a key
  occurs once, \<^verbatim>\<open>set\<close> on a present key replaces the value in place and on a new key
  appends. Time stamps are readings of \<^verbatim>\<open>Date.now()\<close>, passed in by the caller.
  A page is a handle; \<open>closedPages\<close> records the calls of \<^verbatim>\<open>page.close()\<close>.
\<close>

definition timeoutMs :: int where
  "timeoutMs = 30 * 60 * 1000"

definition maxSessions :: nat where
  "maxSessions = 10"

record Session =
  sessionId :: string
  sessionPage :: nat
  createdAt :: int
  lastActivityAt :: int
  messageCount :: nat

record SessionManager =
  sessions :: "(string \<times> Session) list"
  closedPages :: "nat list"

definition emptyManager :: SessionManager where
  "emptyManager = \<lparr> sessions = [], closedPages = [] \<rparr>"

fun mapSet :: "'k \<Rightarrow> 'v \<Rightarrow> ('k \<times> 'v) list \<Rightarrow> ('k \<times> 'v) list" where
  "mapSet k v [] = [(k, v)]"
| "mapSet k v (e # m) = (if fst e = k then (k, v) # m else e # mapSet k v m)"

definition mapDelete :: "'k \<Rightarrow> ('k \<times> 'v) list \<Rightarrow> ('k \<times> 'v) list" where
  "mapDelete k m = filter (\<lambda>e. fst e \<noteq> k) m"

definition hasSession :: "string \<Rightarrow> SessionManager \<Rightarrow> bool" where
  "hasSession sid sm = (map_of (sessions sm) sid \<noteq> None)"

text \<open>
  \<^verbatim>\<open>closeSession\<close>: an error of \<^verbatim>\<open>page.close()\<close> is caught and logged, so the entry is
  deleted whether or not the page closed.
\<close>

definition closeSession :: "string \<Rightarrow> SessionManager \<Rightarrow> bool \<times> SessionManager" where
  "closeSession sid sm =
     (case map_of (sessions sm) sid of
        None \<Rightarrow> (False, sm)
      | Some session \<Rightarrow>
          (True, sm\<lparr>closedPages := closedPages sm @ [sessionPage session],
                    sessions := mapDelete sid (sessions sm)\<rparr>))"

definition expired :: "int \<Rightarrow> (string \<times> Session) \<Rightarrow> bool" where
  "expired now e = (now - lastActivityAt (snd e) > timeoutMs)"

text \<open>
  \<^verbatim>\<open>cleanupExpiredSessions\<close> run without interruption, from the reading of the clock to
  the last deletion. This is the sweep as \<^verbatim>\<open>createSession\<close> (modelled as one step)
  awaits it.
\<close>

definition cleanupExpiredSessions :: "int \<Rightarrow> SessionManager \<Rightarrow> SessionManager" where
  "cleanupExpiredSessions now sm =
     (let expiredIds = map fst (filter (expired now) (sessions sm))
      in fold (\<lambda>sid m. snd (closeSession sid m)) expiredIds sm)"

text \<open>
  The periodic sweep is not one step of the process: \<^verbatim>\<open>cleanupExpiredSessions\<close> reads
  the clock once and collects \<^verbatim>\<open>expiredIds\<close>, then awaits \<^verbatim>\<open>closeSession\<close> for each
  identifier, and \<^verbatim>\<open>closeSession\<close> awaits \<^verbatim>\<open>page.close()\<close> before it deletes the
  entry. Other callbacks run at each of these awaits. The segments are therefore
  modelled one by one. \<open>closeBegin\<close> is \<^verbatim>\<open>closeSession\<close> up to its await (the lookup and
  the call of \<^verbatim>\<open>page.close()\<close>), \<open>closeEnd\<close> is the deletion after it.
\<close>

definition closeBegin :: "string \<Rightarrow> SessionManager \<Rightarrow> bool \<times> SessionManager" where
  "closeBegin sid sm =
     (case map_of (sessions sm) sid of
        None \<Rightarrow> (False, sm)
      | Some session \<Rightarrow> (True, sm\<lparr>closedPages := closedPages sm @ [sessionPage session]\<rparr>))"

definition closeEnd :: "string \<Rightarrow> SessionManager \<Rightarrow> SessionManager" where
  "closeEnd sid sm = sm\<lparr>sessions := mapDelete sid (sessions sm)\<rparr>"

text \<open>
  A suspended sweep: the identifier whose \<^verbatim>\<open>page.close()\<close> is awaited (\<open>None\<close> when
  the last \<^verbatim>\<open>closeSession\<close> found no session), and the rest of \<^verbatim>\<open>expiredIds\<close>.
\<close>

record Sweep =
  closing :: "string option"
  marked :: "string list"

text \<open>
  One turn of the loop over \<^verbatim>\<open>expiredIds\<close>, up to its await; \<open>None\<close> when the loop
  is over.
\<close>

definition sweepNext :: "string list \<Rightarrow> SessionManager \<Rightarrow> Sweep option \<times> SessionManager" where
  "sweepNext ids sm =
     (case ids of
        [] \<Rightarrow> (None, sm)
      | sid # rest \<Rightarrow>
          (case closeBegin sid sm of
             (True, sm') \<Rightarrow> (Some \<lparr> closing = Some sid, marked = rest \<rparr>, sm')
           | (False, sm') \<Rightarrow> (Some \<lparr> closing = None, marked = rest \<rparr>, sm')))"

text \<open>The first segment: the clock is read, the expired sessions are collected.\<close>

definition sweepBegin :: "int \<Rightarrow> SessionManager \<Rightarrow> Sweep option \<times> SessionManager" where
  "sweepBegin now sm = sweepNext (map fst (filter (expired now) (sessions sm))) sm"

text \<open>A later segment: the awaited \<^verbatim>\<open>closeSession\<close> finishes, the loop goes on.\<close>

definition sweepResume :: "Sweep \<Rightarrow> SessionManager \<Rightarrow> Sweep option \<times> SessionManager" where
  "sweepResume task sm =
     sweepNext (marked task)
       (case closing task of None \<Rightarrow> sm | Some sid \<Rightarrow> closeEnd sid sm)"

text \<open>The segments of a sweep run to the end with nothing in between.\<close>

function sweepFinish :: "Sweep option \<times> SessionManager \<Rightarrow> SessionManager" where
  "sweepFinish (None, sm) = sm"
| "sweepFinish (Some task, sm) = sweepFinish (sweepResume task sm)"
  by pat_completeness auto
termination
  by (relation "measure (\<lambda>(t, sm). case t of None \<Rightarrow> 0 | Some task \<Rightarrow> Suc (length (marked task)))")
     (auto simp: sweepResume_def sweepNext_def split: list.splits prod.splits bool.splits)

text \<open>The loop of \<^verbatim>\<open>getOldestSession\<close> over the values of the map, with its running minimum.\<close>

fun oldestOf :: "Session option \<Rightarrow> Session list \<Rightarrow> Session option" where
  "oldestOf oldest [] = oldest"
| "oldestOf oldest (session # rest) =
     oldestOf (case oldest of
                 None \<Rightarrow> Some session
               | Some old \<Rightarrow>
                   if lastActivityAt session < lastActivityAt old then Some session else Some old)
              rest"

definition getOldestSession :: "SessionManager \<Rightarrow> Session option" where
  "getOldestSession sm = oldestOf None (map snd (sessions sm))"

text \<open>
  What \<^verbatim>\<open>createSession\<close> obtains from its surroundings: the clock read by the sweep,
  the new page (or the message of the error of \<^verbatim>\<open>getContext\<close>/\<^verbatim>\<open>newPage\<close>, among them
  \<^verbatim>\<open>Browser not initialized\<close>), the identifier from \<^verbatim>\<open>uuidv4\<close>, the clock at creation
  and the error of \<^verbatim>\<open>page.goto\<close>, if any.
\<close>

record CreateEnv =
  sweepNow :: int
  newPage :: "string + nat"
  freshId :: string
  createNow :: int
  gotoError :: "string option"

text \<open>The first block of \<^verbatim>\<open>createSession\<close>: the capacity check, the sweep, the eviction.\<close>

definition makeRoom :: "int \<Rightarrow> SessionManager \<Rightarrow> SessionManager" where
  "makeRoom now sm =
     (if length (sessions sm) \<ge> maxSessions then
        (let sm1 = cleanupExpiredSessions now sm in
         if length (sessions sm1) \<ge> maxSessions then
           (case getOldestSession sm1 of
              None \<Rightarrow> sm1
            | Some oldestSession \<Rightarrow> snd (closeSession (sessionId oldestSession) sm1))
         else sm1)
      else sm)"

definition createSession :: "CreateEnv \<Rightarrow> SessionManager \<Rightarrow> (string + Session) \<times> SessionManager" where
  "createSession env sm =
     (let sm1 = makeRoom (sweepNow env) sm in
      case newPage env of
        Inl err \<Rightarrow> (Inl err, sm1)
      | Inr page \<Rightarrow>
          (case gotoError env of
             Some err \<Rightarrow> (Inl err, sm1)
           | None \<Rightarrow>
               let session = \<lparr> sessionId = freshId env, sessionPage = page,
                                createdAt = createNow env, lastActivityAt = createNow env,
                                messageCount = 0 \<rparr>
               in (Inr session, sm1\<lparr>sessions := mapSet (freshId env) session (sessions sm1)\<rparr>)))"

text \<open>A string is truthy when it is present and not empty.\<close>

definition truthy :: "string option \<Rightarrow> string option" where
  "truthy v = (case v of None \<Rightarrow> None | Some s \<Rightarrow> if s = [] then None else Some s)"

definition getOrCreateSession ::
  "string option \<Rightarrow> int \<Rightarrow> CreateEnv \<Rightarrow> SessionManager \<Rightarrow> (string + Session) \<times> SessionManager" where
  "getOrCreateSession requested now env sm =
     (case truthy requested of
        None \<Rightarrow> createSession env sm
      | Some sid \<Rightarrow>
          (case map_of (sessions sm) sid of
             Some existing \<Rightarrow>
               (Inr (existing\<lparr>lastActivityAt := now\<rparr>),
                sm\<lparr>sessions := mapSet sid (existing\<lparr>lastActivityAt := now\<rparr>) (sessions sm)\<rparr>)
           | None \<Rightarrow> createSession env sm))"

definition touchSession :: "string \<Rightarrow> int \<Rightarrow> SessionManager \<Rightarrow> SessionManager" where
  "touchSession sid now sm =
     (case map_of (sessions sm) sid of
        None \<Rightarrow> sm
      | Some session \<Rightarrow>
          sm\<lparr>sessions :=
               mapSet sid (session\<lparr>lastActivityAt := now, messageCount := messageCount session + 1\<rparr>)
                 (sessions sm)\<rparr>)"

section \<open>Model names (browser/models.ts)\<close>

datatype CopilotModel = Auto | Quick | Think | GPT52Quick | GPT52Think

definition modelsInMoreSection :: "CopilotModel list" where
  "modelsInMoreSection = [GPT52Quick, GPT52Think]"

definition modelMapping :: "(string \<times> CopilotModel) list" where
  "modelMapping =
     [(''copilot-auto'', Auto), (''auto'', Auto),
      (''copilot-quick'', Quick), (''gpt-4o'', Quick), (''gpt-4o-mini'', Quick),
      (''gpt-4'', Quick), (''gpt-3.5-turbo'', Quick),
      (''copilot-think'', Think), (''o1'', Think), (''o1-mini'', Think), (''o1-preview'', Think),
      (''gpt-5.2'', GPT52Quick), (''gpt-5.2-quick'', GPT52Quick), (''gpt-5'', GPT52Quick),
      (''gpt-5.2-think'', GPT52Think), (''o3'', GPT52Think), (''o3-mini'', GPT52Think)]"

definition defaultModel :: CopilotModel where
  "defaultModel = Auto"

definition availableModelNames :: "string list" where
  "availableModelNames =
     [''copilot-auto'', ''copilot-quick'', ''copilot-think'', ''gpt-5.2-quick'', ''gpt-5.2-think'']"

text \<open>
  Strings are byte strings here: \<^verbatim>\<open>toLowerCase\<close> and \<^verbatim>\<open>trim\<close> are modelled on the
  ASCII range (letters A to Z; tab, line feed, vertical tab, form feed, carriage return
  and space).
\<close>

definition lowerChar :: "char \<Rightarrow> char" where
  "lowerChar c =
     (let n = (of_char c :: nat) in if 65 \<le> n \<and> n \<le> 90 then char_of (n + 32) else c)"

definition toLowerCase :: "string \<Rightarrow> string" where
  "toLowerCase s = map lowerChar s"

definition isWhiteSpace :: "char \<Rightarrow> bool" where
  "isWhiteSpace c = (let n = (of_char c :: nat) in (9 \<le> n \<and> n \<le> 13) \<or> n = 32)"

definition trim :: "string \<Rightarrow> string" where
  "trim s = rev (dropWhile isWhiteSpace (rev (dropWhile isWhiteSpace s)))"

text \<open>
  \<^verbatim>\<open>modelMapping\<close> is an object literal, so \<^verbatim>\<open>modelMapping[normalized]\<close> reads an own
  property first and otherwise a property inherited from \<^verbatim>\<open>Object.prototype\<close>, whose
  members are listed here. Each of them is a function or an object, hence truthy.
\<close>

definition objectPrototypeKeys :: "string list" where
  "objectPrototypeKeys =
     [''constructor'', ''__proto__'', ''hasOwnProperty'', ''isPrototypeOf'',
      ''propertyIsEnumerable'', ''toLocaleString'', ''toString'', ''valueOf'',
      ''__defineGetter__'', ''__defineSetter__'', ''__lookupGetter__'', ''__lookupSetter__'']"

text \<open>
  The value found for a model name: a Copilot model of the mapping, or a member of
  \<^verbatim>\<open>Object.prototype\<close>. \<open>None\<close> is \<^verbatim>\<open>null\<close>.
\<close>

datatype ModelValue = Model CopilotModel | ProtoMember string

definition mapModelName :: "string \<Rightarrow> ModelValue option" where
  "mapModelName modelName =
     (let normalized = trim (toLowerCase modelName) in
      case map_of modelMapping normalized of
        Some m \<Rightarrow> Some (Model m)
      | None \<Rightarrow>
          if normalized \<in> set objectPrototypeKeys then Some (ProtoMember normalized) else None)"

definition getCopilotModel :: "string option \<Rightarrow> ModelValue" where
  "getCopilotModel modelName =
     (case truthy modelName of
        None \<Rightarrow> Model defaultModel
      | Some name \<Rightarrow>
          (case mapModelName name of None \<Rightarrow> Model defaultModel | Some v \<Rightarrow> v))"

definition isValidModel :: "string \<Rightarrow> bool" where
  "isValidModel modelName = (mapModelName modelName \<noteq> None)"

fun joinWith :: "string \<Rightarrow> string list \<Rightarrow> string" where
  "joinWith sep [] = []"
| "joinWith sep [x] = x"
| "joinWith sep (x # y # rest) = x @ sep @ joinWith sep (y # rest)"

text \<open>A response of the HTTP handlers: an error body with its status, or a completion.\<close>

datatype Response =
    ErrorResponse (respStatus: nat) (respMessage: string) (respType: string) (respCode: string)
  | ChatCompletion (respModel: string) (respContent: string) (respSession: string)
  | SessionClosed (respClosed: string)

definition createModelNotFoundError :: "string \<Rightarrow> Response" where
  "createModelNotFoundError modelName =
     ErrorResponse 400
       (''Model '' @ [CHR 0x27] @ modelName @ [CHR 0x27] @
        '' is not supported. Available models: '' @ joinWith '', '' availableModelNames)
       ''invalid_request_error'' ''model_not_found''"

section \<open>Page interaction (browser/copilot.ts)\<close>

text \<open>
  A page is given by what its primitives answer: \<open>Inl\<close> or \<open>Some\<close> carry the message
  of the error a primitive throws. The randomised delays cannot fail and are left out.
  Typing and submitting the message, and the polling for the end of the generation,
  are each one step of the page.
\<close>

datatype Selector =
    ModelSelectorButton | MoreSection | ModelOption ModelValue | NewChatButton
  | LastAssistantMessage | AssistantMessage | ResponseContainer | AnyMessage

record Element =
  textContent :: "string + string option"

record Page =
  onCopilot :: bool
  goto :: "string option"
  query :: "Selector \<Rightarrow> string + bool"
  click :: "Selector \<Rightarrow> string option"
  waitForSelector :: "Selector \<Rightarrow> string option"
  pressKey :: "string \<Rightarrow> string option"
  queryAll :: "Selector \<Rightarrow> string + Element list"
  typeAndSubmit :: "string \<Rightarrow> string option"
  awaitCompletion :: "string option"

definition ensureOnCopilot :: "Page \<Rightarrow> string + unit" where
  "ensureOnCopilot page =
     (if \<not> onCopilot page then (case goto page of Some e \<Rightarrow> Inl e | None \<Rightarrow> Inr ())
      else Inr ())"

text \<open>The body of the \<^verbatim>\<open>try\<close> of \<^verbatim>\<open>startNewChatOnPage\<close>, and the function with its \<^verbatim>\<open>catch\<close>.\<close>

definition startNewChatBody :: "Page \<Rightarrow> string + unit" where
  "startNewChatBody page =
     (case query page NewChatButton of
        Inl e \<Rightarrow> Inl e
      | Inr True \<Rightarrow> (case click page NewChatButton of Some e \<Rightarrow> Inl e | None \<Rightarrow> Inr ())
      | Inr False \<Rightarrow> (case goto page of Some e \<Rightarrow> Inl e | None \<Rightarrow> Inr ()))"

definition startNewChatOnPage :: "Page \<Rightarrow> string + unit" where
  "startNewChatOnPage page =
     (case startNewChatBody page of Inl e \<Rightarrow> Inr () | Inr u \<Rightarrow> Inr ())"

definition inMoreSection :: "ModelValue \<Rightarrow> bool" where
  "inMoreSection v = (case v of Model m \<Rightarrow> m \<in> set modelsInMoreSection | ProtoMember k \<Rightarrow> False)"

text \<open>The body of the \<^verbatim>\<open>try\<close> of \<^verbatim>\<open>selectModelOnPage\<close>.\<close>

definition expandMore :: "Page \<Rightarrow> ModelValue \<Rightarrow> string option" where
  "expandMore page model =
     (if inMoreSection model then
        (case query page MoreSection of
           Inl e \<Rightarrow> Some e
         | Inr True \<Rightarrow> click page MoreSection
         | Inr False \<Rightarrow> None)
      else None)"

definition selectModelBody :: "Page \<Rightarrow> ModelValue \<Rightarrow> string + unit" where
  "selectModelBody page model =
     (case query page ModelSelectorButton of
        Inl e \<Rightarrow> Inl e
      | Inr False \<Rightarrow> Inr ()
      | Inr True \<Rightarrow>
          (case click page ModelSelectorButton of
             Some e \<Rightarrow> Inl e
           | None \<Rightarrow>
               (case expandMore page model of
                  Some e \<Rightarrow> Inl e
                | None \<Rightarrow>
                    (case waitForSelector page (ModelOption model) of
                       Some e \<Rightarrow> Inl e
                     | None \<Rightarrow>
                         (case click page (ModelOption model) of
                            Some e \<Rightarrow> Inl e
                          | None \<Rightarrow> Inr ())))))"

text \<open>
  \<^verbatim>\<open>selectModelOnPage\<close>: the \<^verbatim>\<open>catch\<close> logs the error and presses Escape; an error of
  that key press is thrown from inside the handler.
\<close>

definition selectModelOnPage :: "Page \<Rightarrow> ModelValue \<Rightarrow> string + unit" where
  "selectModelOnPage page model =
     (case selectModelBody page model of
        Inr u \<Rightarrow> Inr ()
      | Inl e \<Rightarrow> (case pressKey page ''Escape'' of Some e' \<Rightarrow> Inl e' | None \<Rightarrow> Inr ()))"

text \<open>
  The loop of \<^verbatim>\<open>extractLastResponseFromPage\<close> over the selectors: an error continues
  with the next selector, and so does a match whose last element has no text or only
  white space.
\<close>

fun trySelectors :: "Page \<Rightarrow> Selector list \<Rightarrow> string option" where
  "trySelectors page [] = None"
| "trySelectors page (selector # rest) =
     (case queryAll page selector of
        Inl e \<Rightarrow> trySelectors page rest
      | Inr elements \<Rightarrow>
          if length elements > 0 then
            (case textContent (last elements) of
               Inl e \<Rightarrow> trySelectors page rest
             | Inr None \<Rightarrow> trySelectors page rest
             | Inr (Some text) \<Rightarrow>
                 if text \<noteq> [] \<and> trim text \<noteq> [] then Some (trim text)
                 else trySelectors page rest)
          else trySelectors page rest)"

definition extractionFailedMessage :: string where
  "extractionFailedMessage = ''Could not extract response from page''"

text \<open>The fallback of \<^verbatim>\<open>extractLastResponseFromPage\<close>; \<open>None\<close> when it returns nothing.\<close>

definition fallbackText :: "Page \<Rightarrow> string option" where
  "fallbackText page =
     (case queryAll page AnyMessage of
        Inl e \<Rightarrow> None
      | Inr allMessages \<Rightarrow>
          if length allMessages > 0 then
            (case textContent (last allMessages) of
               Inl e \<Rightarrow> None
             | Inr None \<Rightarrow> None
             | Inr (Some text) \<Rightarrow> if text \<noteq> [] then Some (trim text) else None)
          else None)"

definition extractLastResponseFromPage :: "Page \<Rightarrow> string + string" where
  "extractLastResponseFromPage page =
     (case trySelectors page [LastAssistantMessage, AssistantMessage, ResponseContainer] of
        Some text \<Rightarrow> Inr text
      | None \<Rightarrow>
          (case fallbackText page of
             Some text \<Rightarrow> Inr text
           | None \<Rightarrow> Inl extractionFailedMessage))"

definition responseTimeoutMessage :: string where
  "responseTimeoutMessage = ''Response timeout - Copilot took too long to respond''"

definition sendMessageOnPage :: "Page \<Rightarrow> string \<Rightarrow> string + string" where
  "sendMessageOnPage page msg =
     (case typeAndSubmit page msg of
        Some e \<Rightarrow> Inl e
      | None \<Rightarrow>
          (case awaitCompletion page of
             Some e \<Rightarrow> Inl e
           | None \<Rightarrow> extractLastResponseFromPage page))"

definition chatCompletionOnPage :: "Page \<Rightarrow> string \<Rightarrow> ModelValue \<Rightarrow> bool \<Rightarrow> string + string" where
  "chatCompletionOnPage page msg model isFirstMessage =
     (case ensureOnCopilot page of
        Inl e \<Rightarrow> Inl e
      | Inr u \<Rightarrow>
          if isFirstMessage then
            (case startNewChatOnPage page of
               Inl e \<Rightarrow> Inl e
             | Inr u \<Rightarrow>
                 (case selectModelOnPage page model of
                    Inl e \<Rightarrow> Inl e
                  | Inr u \<Rightarrow> sendMessageOnPage page msg))
          else sendMessageOnPage page msg)"

text \<open>
  The extraction as the specification words it: the four strategies in order, each
  yielding the trimmed text of its last matching element, the first non-empty one
  returned, an error when there is none.
\<close>

definition strategyText :: "Page \<Rightarrow> Selector \<Rightarrow> string option" where
  "strategyText page selector =
     (case queryAll page selector of
        Inl e \<Rightarrow> None
      | Inr elements \<Rightarrow>
          if elements = [] then None
          else (case textContent (last elements) of
                  Inl e \<Rightarrow> None
                | Inr None \<Rightarrow> None
                | Inr (Some text) \<Rightarrow> if trim text = [] then None else Some (trim text)))"

definition specExtract :: "Page \<Rightarrow> string + string" where
  "specExtract page =
     (case List.map_filter (strategyText page)
             [LastAssistantMessage, AssistantMessage, ResponseContainer, AnyMessage] of
        [] \<Rightarrow> Inl extractionFailedMessage
      | text # others \<Rightarrow> Inr text)"

section \<open>Request handlers (api/handlers.ts)\<close>

record ChatMessage =
  role :: string
  content :: string

text \<open>
  The body of a request: \<open>reqMessages\<close> is \<open>None\<close> when \<^verbatim>\<open>messages\<close> is missing or
  not an array, \<open>reqModel\<close> and \<open>reqSessionId\<close> are \<open>None\<close> when the field is missing.
\<close>

record ChatCompletionRequest =
  reqModel :: "string option"
  reqMessages :: "ChatMessage list option"
  reqStream :: bool
  reqSessionId :: "string option"

definition formatMessage :: "ChatMessage \<Rightarrow> string" where
  "formatMessage msg =
     (if role msg = ''system'' then ''[System Instructions]'' @ [CHR 0x0A] @ content msg
      else if role msg = ''assistant'' then
        ''[Previous Assistant Response]'' @ [CHR 0x0A] @ content msg
      else content msg)"

definition formatMessagesAsPrompt :: "ChatMessage list \<Rightarrow> string" where
  "formatMessagesAsPrompt messages =
     (case messages of
        [m] \<Rightarrow> content m
      | _ \<Rightarrow> joinWith [CHR 0x0A, CHR 0x0A] (map formatMessage messages))"

definition invalidMessagesError :: Response where
  "invalidMessagesError =
     ErrorResponse 400 ''messages is required and must be a non-empty array''
       ''invalid_request_error'' ''invalid_messages''"

definition streamingError :: Response where
  "streamingError =
     ErrorResponse 400 ''Streaming is not supported by this server''
       ''invalid_request_error'' ''streaming_not_supported''"

definition noUserMessageError :: Response where
  "noUserMessageError =
     ErrorResponse 400 ''No user message found in messages array''
       ''invalid_request_error'' ''no_user_message''"

definition internalError :: "string \<Rightarrow> Response" where
  "internalError msg = ErrorResponse 500 msg ''server_error'' ''internal_error''"

text \<open>
  What the handler puts into the queue: the arguments of \<^verbatim>\<open>chatCompletionOnPage\<close>
  captured by the closure, and what the handler itself keeps for its continuation (the
  identifier of the session and the requested model name).
\<close>

record Job =
  jobPage :: nat
  jobMessage :: string
  jobModel :: ModelValue
  jobFirst :: bool
  jobSession :: string
  jobRequested :: "string option"

record System =
  manager :: SessionManager
  requests :: "(Job, string) RequestQueue"
  sweeps :: "Sweep list"
  responses :: "Response list"

definition emptySystem :: System where
  "emptySystem = \<lparr> manager = emptyManager, requests = emptyQueue, sweeps = [],
     responses = [] \<rparr>"

datatype Handled = Responded Response | Awaiting nat

text \<open>
  \<^verbatim>\<open>handleChatCompletion\<close> up to \<^verbatim>\<open>await requestQueue.enqueue(...)\<close>. An error thrown
  inside the \<^verbatim>\<open>try\<close> (by \<^verbatim>\<open>getOrCreateSession\<close> or by \<^verbatim>\<open>enqueue\<close>) is answered with 500.
\<close>

definition messageToSend :: "bool \<Rightarrow> ChatMessage list \<Rightarrow> string option" where
  "messageToSend isFirstMessage messages =
     (if isFirstMessage then Some (formatMessagesAsPrompt messages)
      else map_option content (find (\<lambda>m. role m = ''user'') (rev messages)))"

text \<open>The requested model when \<^verbatim>\<open>requestedModel && !isValidModel(requestedModel)\<close> holds.\<close>

definition unsupportedModel :: "string option \<Rightarrow> string option" where
  "unsupportedModel requested =
     (case truthy requested of
        None \<Rightarrow> None
      | Some requestedModel \<Rightarrow> if isValidModel requestedModel then None else Some requestedModel)"

definition handleChatCompletion ::
  "ChatCompletionRequest \<Rightarrow> int \<Rightarrow> CreateEnv \<Rightarrow> System \<Rightarrow> Handled \<times> System" where
  "handleChatCompletion req now env sys =
     (case reqMessages req of
        None \<Rightarrow> (Responded invalidMessagesError, sys)
      | Some messages \<Rightarrow>
          if length messages = 0 then (Responded invalidMessagesError, sys)
          else if reqStream req then (Responded streamingError, sys)
          else
            (case unsupportedModel (reqModel req) of
               Some requestedModel \<Rightarrow> (Responded (createModelNotFoundError requestedModel), sys)
             | None \<Rightarrow>
            (let copilotModel = getCopilotModel (reqModel req) in
             case getOrCreateSession (reqSessionId req) now env (manager sys) of
               (Inl err, sm) \<Rightarrow> (Responded (internalError err), sys\<lparr>manager := sm\<rparr>)
             | (Inr session, sm) \<Rightarrow>
                 (let isFirstMessage = (messageCount session = 0) in
                  case messageToSend isFirstMessage messages of
                    None \<Rightarrow> (Responded noUserMessageError, sys\<lparr>manager := sm\<rparr>)
                  | Some msg \<Rightarrow>
                      (case enqueue \<lparr> jobPage = sessionPage session, jobMessage = msg,
                                      jobModel = copilotModel, jobFirst = isFirstMessage,
                                      jobSession = sessionId session,
                                      jobRequested = truthy (reqModel req) \<rparr>
                              (requests sys) of
                         (Inl err, q) \<Rightarrow>
                           (Responded (internalError err), sys\<lparr>manager := sm, requests := q\<rparr>)
                       | (Inr ticket, q) \<Rightarrow>
                           (Awaiting ticket, sys\<lparr>manager := sm, requests := q\<rparr>))))))"

text \<open>
  The rest of \<^verbatim>\<open>handleChatCompletion\<close>, once the promise of \<^verbatim>\<open>enqueue\<close> is settled:
  with a result the session is touched and the completion returned, with an error the
  \<^verbatim>\<open>catch\<close> answers 500.
\<close>

definition handleSettled :: "Job \<Rightarrow> string settlement \<Rightarrow> int \<Rightarrow> System \<Rightarrow> System" where
  "handleSettled job outcome now sys =
     (case outcome of
        ByOperation (Inr responseText) \<Rightarrow>
          sys\<lparr>manager := touchSession (jobSession job) now (manager sys),
              responses := responses sys @
                [ChatCompletion (case jobRequested job of None \<Rightarrow> ''copilot-auto'' | Some m \<Rightarrow> m)
                   responseText (jobSession job)]\<rparr>
      | ByOperation (Inl err) \<Rightarrow> sys\<lparr>responses := responses sys @ [internalError err]\<rparr>
      | ByQueue err \<Rightarrow> sys\<lparr>responses := responses sys @ [internalError err]\<rparr>)"

definition sessionNotFoundError :: "string \<Rightarrow> Response" where
  "sessionNotFoundError sid =
     ErrorResponse 404 (''Session '' @ sid @ '' not found'')
       ''invalid_request_error'' ''session_not_found''"

definition handleDeleteSession :: "string \<Rightarrow> SessionManager \<Rightarrow> bool \<times> SessionManager" where
  "handleDeleteSession sid sm = closeSession sid sm"

section \<open>The server as a transition system\<close>

text \<open>
  The events of the process: a chat request arrives (with the clock and what session
  creation would obtain), the running exchange finishes (then the handler that awaits
  it continues, at the given clock), the timer of a waiting item fires (then its handler
  continues with the rejection), the periodic sweep starts (its first segment, with the
  clock it reads), the \<open>n\<close>-th suspended sweep resumes, a session is deleted through the
  API. \<open>pages\<close> gives the page behind each handle; the outcome of an exchange is what
  \<^verbatim>\<open>chatCompletionOnPage\<close> returns on it.
\<close>

datatype Event =
    ChatRequest ChatCompletionRequest int CreateEnv
  | ExchangeDone nat int
  | QueueTimer nat int
  | IdleSweep int
  | SweepResume nat
  | DeleteSession string

definition runJob :: "(nat \<Rightarrow> Page) \<Rightarrow> Job \<Rightarrow> string + string" where
  "runJob pages job =
     chatCompletionOnPage (pages (jobPage job)) (jobMessage job) (jobModel job) (jobFirst job)"

definition exchangeDone :: "(nat \<Rightarrow> Page) \<Rightarrow> nat \<Rightarrow> int \<Rightarrow> System \<Rightarrow> System" where
  "exchangeDone pages i now sys =
     (case find (\<lambda>it. ident it = i) (executing (requests sys)) of
        None \<Rightarrow> sys
      | Some item \<Rightarrow>
          handleSettled (execute item) (ByOperation (runJob pages (execute item))) now
            (sys\<lparr>requests := finishItem (runJob pages) i (requests sys)\<rparr>))"

definition queueTimer :: "nat \<Rightarrow> int \<Rightarrow> System \<Rightarrow> System" where
  "queueTimer i now sys =
     (if i \<in> set (timers (requests sys)) then
        (case find (\<lambda>it. ident it = i) (queue (requests sys)) of
           None \<Rightarrow> sys\<lparr>requests := timerFire i (requests sys)\<rparr>
         | Some item \<Rightarrow>
             handleSettled (execute item) (ByQueue queueTimeoutMessage) now
               (sys\<lparr>requests := timerFire i (requests sys)\<rparr>))
      else sys)"

fun sstep :: "(nat \<Rightarrow> Page) \<Rightarrow> Event \<Rightarrow> System \<Rightarrow> System" where
  "sstep pages (ChatRequest req now env) sys =
     (case handleChatCompletion req now env sys of
        (Responded r, sys') \<Rightarrow> sys'\<lparr>responses := responses sys' @ [r]\<rparr>
      | (Awaiting ticket, sys') \<Rightarrow> sys')"
| "sstep pages (ExchangeDone i now) sys = exchangeDone pages i now sys"
| "sstep pages (QueueTimer i now) sys = queueTimer i now sys"
| "sstep pages (IdleSweep now) sys =
     (case sweepBegin now (manager sys) of
        (None, sm) \<Rightarrow> sys\<lparr>manager := sm\<rparr>
      | (Some task, sm) \<Rightarrow> sys\<lparr>manager := sm, sweeps := sweeps sys @ [task]\<rparr>)"
| "sstep pages (SweepResume n) sys =
     (if n < length (sweeps sys) then
        (case sweepResume (sweeps sys ! n) (manager sys) of
           (None, sm) \<Rightarrow>
             sys\<lparr>manager := sm, sweeps := take n (sweeps sys) @ drop (Suc n) (sweeps sys)\<rparr>
         | (Some task, sm) \<Rightarrow> sys\<lparr>manager := sm, sweeps := (sweeps sys)[n := task]\<rparr>)
      else sys)"
| "sstep pages (DeleteSession sid) sys =
     (case handleDeleteSession sid (manager sys) of
        (True, sm) \<Rightarrow> sys\<lparr>manager := sm, responses := responses sys @ [SessionClosed sid]\<rparr>
      | (False, sm) \<Rightarrow> sys\<lparr>manager := sm, responses := responses sys @ [sessionNotFoundError sid]\<rparr>)"

definition srun :: "(nat \<Rightarrow> Page) \<Rightarrow> Event list \<Rightarrow> System \<Rightarrow> System" where
  "srun pages evs sys = fold (sstep pages) evs sys"

section \<open>Invariants\<close>

text \<open>
  Of the queue: items are started in the order of their identities and before every
  item still waiting; the flag is set exactly while one operation runs; the armed
  timers are those of the waiting items; every item and every settlement by the worker
  belongs to an accepted operation; no promise is settled twice.
\<close>

definition qorder :: "('op, 'v) RequestQueue \<Rightarrow> bool" where
  "qorder q \<longleftrightarrow> sorted_wrt (<) (started q @ map ident (queue q)) \<and>
      (\<forall>i \<in> set (started q @ map ident (queue q)). i < nextIdent q)"

definition qmutex :: "('op, 'v) RequestQueue \<Rightarrow> bool" where
  "qmutex q \<longleftrightarrow> length (executing q) \<le> 1 \<and> (processing q \<longleftrightarrow> executing q \<noteq> []) \<and>
      completed q @ map ident (executing q) = started q"

definition qtimers :: "('op, 'v) RequestQueue \<Rightarrow> bool" where
  "qtimers q \<longleftrightarrow> set (timers q) = set (map ident (queue q))"

definition qown :: "('op \<Rightarrow> string + 'v) \<Rightarrow> ('op, 'v) RequestQueue \<Rightarrow> bool" where
  "qown exec q \<longleftrightarrow>
     (\<forall>it \<in> set (queue q) \<union> set (executing q). (ident it, execute it) \<in> set (accepted q)) \<and>
     map fst (accepted q) = [0..<nextIdent q] \<and>
     (\<forall>i r. (i, ByOperation r) \<in> set (settled q) \<longrightarrow>
        (\<exists>op. (i, op) \<in> set (accepted q) \<and> r = exec op))"

definition qonce :: "('op, 'v) RequestQueue \<Rightarrow> bool" where
  "qonce q \<longleftrightarrow> distinct (map fst (settled q)) \<and>
     (\<forall>i \<in> set (map fst (settled q)).
        i \<notin> set (map ident (queue q)) \<and> i \<notin> set (map ident (executing q)) \<and> i < nextIdent q)"

definition qinv :: "('op \<Rightarrow> string + 'v) \<Rightarrow> ('op, 'v) RequestQueue \<Rightarrow> bool" where
  "qinv exec q \<longleftrightarrow> qorder q \<and> qmutex q \<and> qtimers q \<and> qown exec q \<and> qonce q"

text \<open>An item that was created, is not waiting and was never started.\<close>

definition gone :: "nat \<Rightarrow> ('op, 'v) RequestQueue \<Rightarrow> bool" where
  "gone i q \<longleftrightarrow> i < nextIdent q \<and> i \<notin> set (started q) \<and> i \<notin> set (map ident (queue q))"

text \<open>Of the registry: a key occurs once, and a session is stored under its own identifier.\<close>

definition registry :: "(string \<times> Session) list \<Rightarrow> bool" where
  "registry m \<longleftrightarrow> distinct (map fst m) \<and> (\<forall>e \<in> set m. sessionId (snd e) = fst e)"

text \<open>
  The identifier drawn by \<^verbatim>\<open>uuidv4\<close> for a new session is not the key of a registered
  session.
\<close>

fun eventFresh :: "Event \<Rightarrow> System \<Rightarrow> bool" where
  "eventFresh (ChatRequest req now env) sys =
     (freshId env \<notin> set (map fst (sessions (manager sys))))"
| "eventFresh (ExchangeDone i now) sys = True"
| "eventFresh (QueueTimer i now) sys = True"
| "eventFresh (IdleSweep now) sys = True"
| "eventFresh (SweepResume n) sys = True"
| "eventFresh (DeleteSession sid) sys = True"

text \<open>
  The event is the successful end of an exchange that was enqueued for the session
  \<open>k\<close>.
\<close>

fun succeededFor :: "(nat \<Rightarrow> Page) \<Rightarrow> Event \<Rightarrow> System \<Rightarrow> string \<Rightarrow> bool" where
  "succeededFor pages (ExchangeDone i now) sys k =
     (case find (\<lambda>it. ident it = i) (executing (requests sys)) of
        None \<Rightarrow> False
      | Some item \<Rightarrow>
          (case runJob pages (execute item) of
             Inl err \<Rightarrow> False
           | Inr responseText \<Rightarrow> jobSession (execute item) = k))"
| "succeededFor pages (ChatRequest req now env) sys k = False"
| "succeededFor pages (QueueTimer i now) sys k = False"
| "succeededFor pages (IdleSweep now) sys k = False"
| "succeededFor pages (SweepResume n) sys k = False"
| "succeededFor pages (DeleteSession sid) sys k = False"

text \<open>Every session registered before and after has kept its message count.\<close>

definition countsKept :: "SessionManager \<Rightarrow> SessionManager \<Rightarrow> bool" where
  "countsKept sm sm' \<longleftrightarrow>
     (\<forall>k s s'. map_of (sessions sm) k = Some s \<and> map_of (sessions sm') k = Some s'
        \<longrightarrow> messageCount s' = messageCount s)"

section \<open>The queue keeps its invariants\<close>

lemma processNext_idle: "processing q \<or> queue q = [] \<Longrightarrow> processNext q = q"
  by (auto simp: processNext_def)

lemma processNext_start:
  "\<not> processing q \<Longrightarrow> queue q = item # rest \<Longrightarrow>
   processNext q = q\<lparr>processing := True, queue := rest,
                  timers := removeAll (ident item) (timers q),
                  executing := executing q @ [item],
                  started := started q @ [ident item]\<rparr>"
  by (simp add: processNext_def)

lemma processNext_cases:
  obtains (idle) "processNext q = q" "processing q \<or> queue q = []"
  | (start) item rest where "\<not> processing q" "queue q = item # rest"
      "processNext q = q\<lparr>processing := True, queue := rest,
                  timers := removeAll (ident item) (timers q),
                  executing := executing q @ [item],
                  started := started q @ [ident item]\<rparr>"
proof (cases "processing q \<or> queue q = []")
  case True
  then show ?thesis using idle processNext_idle by blast
next
  case False
  then obtain item rest where "queue q = item # rest" by (cases "queue q") auto
  with False show ?thesis using start processNext_start by blast
qed

lemma qorder_processNext: "qorder q \<Longrightarrow> qorder (processNext q)"
  by (cases q rule: processNext_cases) (auto simp: qorder_def)

lemma qmutex_processNext: "qmutex q \<Longrightarrow> qmutex (processNext q)"
  by (cases q rule: processNext_cases) (auto simp: qmutex_def completed_def)

lemma map_ident_spliceItem: "map ident (spliceItem i xs) = remove1 i (map ident xs)"
  by (induction xs) auto

lemma set_spliceItem: "x \<in> set (spliceItem i xs) \<Longrightarrow> x \<in> set xs"
  by (induction xs) (auto split: if_splits)

lemma sorted_wrt_remove1: "sorted_wrt P xs \<Longrightarrow> sorted_wrt P (remove1 x xs)"
  by (induction xs) (auto dest: notin_set_remove1)

lemma qorder_timerFire: "qorder q \<Longrightarrow> qorder (timerFire i q)"
  by (auto simp: timerFire_def timeoutCallback_def qorder_def map_ident_spliceItem
        sorted_wrt_append sorted_wrt_remove1 dest: notin_set_remove1 set_spliceItem)

lemma qmutex_timerFire: "qmutex q \<Longrightarrow> qmutex (timerFire i q)"
  by (auto simp: timerFire_def timeoutCallback_def qmutex_def completed_def)

lemma qorder_clear: "qorder q \<Longrightarrow> qorder (clear q)"
  by (auto simp: clear_def qorder_def sorted_wrt_append)

lemma qmutex_clear: "qmutex q \<Longrightarrow> qmutex (clear q)"
  by (auto simp: clear_def qmutex_def completed_def filter_empty_conv)

lemma qorder_distinct: "qorder q \<Longrightarrow> distinct (started q @ map ident (queue q))"
  unfolding qorder_def using strict_sorted_iff by blast

lemma qtimers_processNext: "qorder q \<Longrightarrow> qtimers q \<Longrightarrow> qtimers (processNext q)"
proof (cases q rule: processNext_cases)
  case idle
  then show "qtimers q \<Longrightarrow> ?thesis" by simp
next
  case (start item rest)
  assume "qorder q" "qtimers q"
  from qorder_distinct[OF \<open>qorder q\<close>] start(2) have "ident item \<notin> set (map ident rest)" by auto
  with \<open>qtimers q\<close> start show ?thesis by (auto simp: qtimers_def)
qed

lemma distinct_spliceItem:
  "distinct (map ident xs) \<Longrightarrow> set (map ident (spliceItem i xs)) = set (map ident xs) - {i}"
  by (simp only: map_ident_spliceItem set_remove1_eq)

lemma qtimers_timerFire: "qorder q \<Longrightarrow> qtimers q \<Longrightarrow> qtimers (timerFire i q)"
  using qorder_distinct[of q]
  by (auto simp: timerFire_def timeoutCallback_def qtimers_def distinct_spliceItem
           simp del: set_map)

lemma qtimers_clear: "qtimers q \<Longrightarrow> qtimers (clear q)"
  by (auto simp: clear_def qtimers_def)

lemma executing_started: "qmutex q \<Longrightarrow> set (map ident (executing q)) \<subseteq> set (started q)"
proof -
  assume "qmutex q"
  then have "completed q @ map ident (executing q) = started q" by (simp add: qmutex_def)
  then have "set (started q) = set (completed q) \<union> set (map ident (executing q))"
    using set_append[of "completed q" "map ident (executing q)"] by simp
  then show ?thesis by blast
qed

lemma executing_not_waiting:
  assumes "qorder q" "qmutex q" "i \<in> set (map ident (executing q))"
  shows "i \<notin> set (map ident (queue q))"
proof -
  have "set (started q) \<inter> set (map ident (queue q)) = {}"
    using qorder_distinct[OF assms(1)] by (simp only: distinct_append)
  moreover have "i \<in> set (started q)" using executing_started[OF assms(2)] assms(3) by blast
  ultimately show ?thesis by blast
qed

lemma qown_processNext: "qown exec q \<Longrightarrow> qown exec (processNext q)"
  by (cases q rule: processNext_cases) (auto simp: qown_def)

lemma qonce_processNext: "qonce q \<Longrightarrow> qonce (processNext q)"
  by (cases q rule: processNext_cases) (auto simp: qonce_def)

lemma qown_timerFire: "qown exec q \<Longrightarrow> qown exec (timerFire i q)"
  by (auto simp: timerFire_def timeoutCallback_def qown_def dest: set_spliceItem)

lemma qonce_timerFire:
  assumes "qorder q" "qmutex q" "qonce q"
  shows "qonce (timerFire i q)"
proof (cases "i \<in> set (timers q) \<and> i \<in> set (map ident (queue q))")
  case False
  with assms(3) show ?thesis
    by (auto simp: timerFire_def timeoutCallback_def qonce_def)
next
  case True
  have d: "distinct (map ident (queue q))" using qorder_distinct[OF assms(1)] by simp
  have a: "i \<notin> set (map ident (spliceItem i (queue q)))"
    using distinct_spliceItem[OF d, of i] by simp
  have b: "i \<notin> set (map ident (executing q))"
    using executing_not_waiting[OF assms(1,2), of i] True by blast
  have c: "i < nextIdent q" using assms(1) True by (auto simp: qorder_def)
  have e: "i \<notin> set (map fst (settled q))" using assms(3) True unfolding qonce_def by blast
  have f: "\<And>j. j \<notin> set (map ident (queue q)) \<Longrightarrow> j \<notin> set (map ident (spliceItem i (queue q)))"
    using distinct_spliceItem[OF d, of i] by simp
  from True have "timerFire i q = q\<lparr>timers := removeAll i (timers q), queue := spliceItem i (queue q),
             settled := settled q @ [(i, ByQueue queueTimeoutMessage)]\<rparr>"
    by (simp add: timerFire_def timeoutCallback_def)
  then show ?thesis using assms(3) a b c e f
    by (simp add: qonce_def del: set_map)
qed

lemma qown_clear: "qown exec q \<Longrightarrow> qown exec (clear q)"
  by (auto simp: clear_def qown_def)

lemma qonce_clear:
  assumes "qorder q" "qmutex q" "qonce q"
  shows "qonce (clear q)"
proof -
  have d: "distinct (map ident (queue q))" using qorder_distinct[OF assms(1)] by simp
  have s: "map fst (settled (clear q)) = map fst (settled q) @ map ident (queue q)"
    by (simp add: clear_def comp_def)
  have f: "queue (clear q) = []" "executing (clear q) = executing q"
    "nextIdent (clear q) = nextIdent q"
    by (simp_all add: clear_def)
  have disj: "set (map fst (settled q)) \<inter> set (map ident (queue q)) = {}"
    using assms(3) unfolding qonce_def by blast
  have b: "\<forall>i \<in> set (map ident (queue q)). i \<notin> set (map ident (executing q)) \<and> i < nextIdent q"
    using executing_not_waiting[OF assms(1,2)] assms(1) unfolding qorder_def by auto
  have c: "\<forall>i \<in> set (map fst (settled q)). i \<notin> set (map ident (executing q)) \<and> i < nextIdent q"
    using assms(3) unfolding qonce_def by blast
  have "distinct (map fst (settled (clear q)))"
    unfolding s using assms(3) d disj by (simp only: distinct_append qonce_def)
  moreover have "\<forall>i \<in> set (map fst (settled (clear q))).
        i \<notin> set (map ident (queue (clear q))) \<and> i \<notin> set (map ident (executing (clear q)))
        \<and> i < nextIdent (clear q)"
    unfolding s f using b c by (simp only: set_append list.map list.set) blast
  ultimately show ?thesis unfolding qonce_def by blast
qed

lemma qinv_processNext: "qinv exec q \<Longrightarrow> qinv exec (processNext q)"
  by (simp add: qinv_def qorder_processNext qmutex_processNext qtimers_processNext
        qown_processNext qonce_processNext)

lemma qinv_timerFire: "qinv exec q \<Longrightarrow> qinv exec (timerFire i q)"
  by (simp add: qinv_def qorder_timerFire qmutex_timerFire qtimers_timerFire
        qown_timerFire qonce_timerFire)

lemma qinv_clear: "qinv exec q \<Longrightarrow> qinv exec (clear q)"
  by (simp add: qinv_def qorder_clear qmutex_clear qtimers_clear qown_clear qonce_clear)

lemma qinv_emptyQueue: "qinv exec emptyQueue"
  by (simp add: qinv_def qorder_def qmutex_def qtimers_def qown_def qonce_def emptyQueue_def
        completed_def)

lemma enqueue_full:
  "maxQueueSize \<le> length (queue q) \<Longrightarrow> enqueue op q = (Inl queueFullMessage, q)"
  by (simp add: enqueue_def)

lemma enqueue_accept:
  "\<not> maxQueueSize \<le> length (queue q) \<Longrightarrow>
   enqueue op q = (Inr (nextIdent q),
     processNext (q\<lparr>nextIdent := Suc (nextIdent q),
        accepted := accepted q @ [(nextIdent q, op)],
        timers := timers q @ [nextIdent q],
        queue := queue q @ [\<lparr> ident = nextIdent q, execute = op \<rparr>]\<rparr>))"
  by (simp add: enqueue_def Let_def)

lemma qinv_pushed:
  assumes "qinv exec q"
  shows "qinv exec (q\<lparr>nextIdent := Suc (nextIdent q),
        accepted := accepted q @ [(nextIdent q, op)],
        timers := timers q @ [nextIdent q],
        queue := queue q @ [\<lparr> ident = nextIdent q, execute = op \<rparr>]\<rparr>)"
    (is "qinv exec ?q'")
proof -
  from assms have o: "qorder q" and m: "qmutex q" and t: "qtimers q" and w: "qown exec q"
    and c: "qonce q" by (simp_all add: qinv_def)
  have "qorder ?q'" using o by (auto simp: qorder_def sorted_wrt_append less_Suc_eq)
  moreover have "qmutex ?q'" using m by (auto simp: qmutex_def completed_def)
  moreover have "qtimers ?q'" using t by (auto simp: qtimers_def)
  moreover have "qown exec ?q'" using w unfolding qown_def by simp blast
  moreover have "qonce ?q'" using c by (fastforce simp: qonce_def)
  ultimately show ?thesis by (simp add: qinv_def)
qed

lemma qinv_enqueue: "qinv exec q \<Longrightarrow> qinv exec (snd (enqueue op q))"
  by (cases "maxQueueSize \<le> length (queue q)")
     (simp_all add: enqueue_full enqueue_accept qinv_pushed qinv_processNext)

lemma qinv_finishItem:
  assumes "qinv exec q"
  shows "qinv exec (finishItem exec i q)"
proof (cases "find (\<lambda>it. ident it = i) (executing q)")
  case None
  with assms show ?thesis by (simp add: finishItem_def)
next
  case (Some item)
  from assms have o: "qorder q" and m: "qmutex q" and t: "qtimers q" and w: "qown exec q"
    and c: "qonce q" by (simp_all add: qinv_def)
  from Some have "executing q \<noteq> []" by auto
  with m have ex: "executing q = [item]" and id: "ident item = i" using Some
    by (cases "executing q"; auto simp: qmutex_def split: if_splits)+
  let ?q' = "q\<lparr>executing := filter (\<lambda>it. ident it \<noteq> i) (executing q),
               settled := settled q @ [(i, ByOperation (exec (execute item)))],
               processing := False\<rparr>"
  have iw: "i \<notin> set (map ident (queue q))"
    using executing_not_waiting[OF o m, of i] ex id by simp
  have istart: "i \<in> set (started q)" using executing_started[OF m] ex id by auto
  then have ilt: "i < nextIdent q" using o by (auto simp: qorder_def)
  have inew: "i \<notin> set (map fst (settled q))" using c ex id unfolding qonce_def by auto
  have "qorder ?q'" using o by (auto simp: qorder_def)
  moreover have "qmutex ?q'" using m ex id by (auto simp: qmutex_def completed_def)
  moreover have "qtimers ?q'" using t by (auto simp: qtimers_def)
  moreover have "qown exec ?q'" using w ex id by (auto simp: qown_def)
  moreover have "qonce ?q'" using c ex id iw ilt inew by (auto simp: qonce_def)
  ultimately have "qinv exec ?q'" by (simp add: qinv_def)
  then show ?thesis using Some by (simp add: finishItem_def qinv_processNext)
qed

lemma qinv_qstep: "qinv exec q \<Longrightarrow> qinv exec (qstep exec ev q)"
  by (cases ev) (simp_all add: qinv_enqueue qinv_finishItem qinv_timerFire qinv_clear)

lemma qinv_qrun: "qinv exec q \<Longrightarrow> qinv exec (qrun exec evs q)"
  unfolding qrun_def by (induction evs arbitrary: q) (simp_all add: qinv_qstep)

lemma qinv_reachable: "qinv exec (qrun exec evs emptyQueue)"
  by (simp add: qinv_qrun qinv_emptyQueue)

lemma gone_processNext: "gone i q \<Longrightarrow> gone i (processNext q)"
  by (cases q rule: processNext_cases) (auto simp: gone_def)

lemma gone_qstep: "gone i q \<Longrightarrow> gone i (qstep exec ev q)"
proof (cases ev)
  case (Enqueue op)
  assume g: "gone i q"
  then have "gone i (q\<lparr>nextIdent := Suc (nextIdent q),
        accepted := accepted q @ [(nextIdent q, op)],
        timers := timers q @ [nextIdent q],
        queue := queue q @ [\<lparr> ident = nextIdent q, execute = op \<rparr>]\<rparr>)"
    by (auto simp: gone_def)
  with g Enqueue show ?thesis
    by (cases "maxQueueSize \<le> length (queue q)")
       (simp_all add: enqueue_full enqueue_accept gone_processNext)
next
  case (Finish j)
  assume g: "gone i q"
  show ?thesis
  proof (cases "find (\<lambda>it. ident it = j) (executing q)")
    case None
    with g Finish show ?thesis by (simp add: finishItem_def)
  next
    case (Some item)
    from g have "gone i (q\<lparr>executing := filter (\<lambda>it. ident it \<noteq> j) (executing q),
               settled := settled q @ [(j, ByOperation (exec (execute item)))],
               processing := False\<rparr>)"
      by (auto simp: gone_def)
    with Some Finish show ?thesis by (simp add: finishItem_def gone_processNext)
  qed
next
  case (TimerFire j)
  assume "gone i q"
  with TimerFire show ?thesis
    by (auto simp: gone_def timerFire_def timeoutCallback_def dest: set_spliceItem)
next
  case Clear
  assume "gone i q"
  with Clear show ?thesis by (auto simp: gone_def clear_def)
qed

lemma gone_qrun: "gone i q \<Longrightarrow> gone i (qrun exec evs q)"
  unfolding qrun_def by (induction evs arbitrary: q) (simp_all add: gone_qstep)

lemma timerFire_waiting:
  assumes "qinv exec q" "i \<in> set (map ident (queue q))"
  shows "i \<in> set (timers q)"
    and "timerFire i q = q\<lparr>timers := removeAll i (timers q), queue := spliceItem i (queue q),
             settled := settled q @ [(i, ByQueue queueTimeoutMessage)]\<rparr>"
    and "i \<notin> set (map ident (spliceItem i (queue q)))"
    and "gone i (timerFire i q)"
proof -
  from assms(1) have o: "qorder q" and t: "qtimers q" by (simp_all add: qinv_def)
  show a: "i \<in> set (timers q)" using t assms(2) unfolding qtimers_def by blast
  show b: "timerFire i q = q\<lparr>timers := removeAll i (timers q), queue := spliceItem i (queue q),
             settled := settled q @ [(i, ByQueue queueTimeoutMessage)]\<rparr>"
    using a assms(2) by (simp add: timerFire_def timeoutCallback_def)
  have d: "distinct (started q @ map ident (queue q))" by (rule qorder_distinct[OF o])
  then have d': "distinct (map ident (queue q))" by simp
  show c: "i \<notin> set (map ident (spliceItem i (queue q)))"
    using distinct_spliceItem[OF d', of i] by simp
  have "i \<notin> set (started q)" using d assms(2) by (simp only: distinct_append) blast
  moreover have "i < nextIdent q" using o assms(2) unfolding qorder_def by auto
  ultimately show "gone i (timerFire i q)" using c unfolding b gone_def by simp
qed

lemma timerFire_started:
  assumes "qinv exec q" "i \<in> set (started q)"
  shows "i \<notin> set (timers q)" and "timerFire i q = q" and "timeoutCallback i q = q"
proof -
  from assms(1) have o: "qorder q" and t: "qtimers q" by (simp_all add: qinv_def)
  have "set (started q) \<inter> set (map ident (queue q)) = {}"
    using qorder_distinct[OF o] by (simp only: distinct_append)
  with assms(2) have n: "i \<notin> set (map ident (queue q))" by blast
  then show "i \<notin> set (timers q)" using t unfolding qtimers_def by blast
  then show "timerFire i q = q" by (simp add: timerFire_def)
  show "timeoutCallback i q = q" using n by (simp add: timeoutCallback_def)
qed

section \<open>Claims about the request queue\<close>



text \<open>
  C2. In every reachable state of the queue: a waiting item has its timer armed, and if
  that timer fires the item leaves the waiting list, its promise is rejected with the
  queue-timeout error, nothing starts running, and whatever happens afterwards the item
  is never started. Conversely, an item the worker has started has no armed timer, so a
  firing of its timer changes nothing, and even the timer's callback itself would
  change nothing.
\<close>

theorem queue_timeout_or_start:
  "let q = qrun exec evs emptyQueue in
     (i \<in> set (map ident (queue q)) \<longrightarrow>
        i \<in> set (timers q) \<and>
        queue (timerFire i q) = spliceItem i (queue q) \<and>
        i \<notin> set (map ident (queue (timerFire i q))) \<and>
        settled (timerFire i q) = settled q @ [(i, ByQueue queueTimeoutMessage)] \<and>
        executing (timerFire i q) = executing q \<and>
        (\<forall>evs'. i \<notin> set (started (qrun exec evs' (timerFire i q))))) \<and>
     (i \<in> set (started q) \<longrightarrow>
        i \<notin> set (timers q) \<and> timerFire i q = q \<and> timeoutCallback i q = q)"
proof -
  define q where "q = qrun exec evs emptyQueue"
  have inv: "qinv exec q" unfolding q_def by (rule qinv_reachable)
  have a: "i \<in> set (map ident (queue q)) \<longrightarrow>
        i \<in> set (timers q) \<and>
        queue (timerFire i q) = spliceItem i (queue q) \<and>
        i \<notin> set (map ident (queue (timerFire i q))) \<and>
        settled (timerFire i q) = settled q @ [(i, ByQueue queueTimeoutMessage)] \<and>
        executing (timerFire i q) = executing q \<and>
        (\<forall>evs'. i \<notin> set (started (qrun exec evs' (timerFire i q))))"
  proof
    assume w: "i \<in> set (map ident (queue q))"
    note f = timerFire_waiting[OF inv w]
    have "\<forall>evs'. i \<notin> set (started (qrun exec evs' (timerFire i q)))"
      using gone_qrun[OF f(4)] by (simp add: gone_def)
    then show "i \<in> set (timers q) \<and>
        queue (timerFire i q) = spliceItem i (queue q) \<and>
        i \<notin> set (map ident (queue (timerFire i q))) \<and>
        settled (timerFire i q) = settled q @ [(i, ByQueue queueTimeoutMessage)] \<and>
        executing (timerFire i q) = executing q \<and>
        (\<forall>evs'. i \<notin> set (started (qrun exec evs' (timerFire i q))))"
      using f(1) f(3) unfolding f(2) by simp
  qed
  have b: "i \<in> set (started q) \<longrightarrow>
        i \<notin> set (timers q) \<and> timerFire i q = q \<and> timeoutCallback i q = q"
    using timerFire_started[OF inv] by blast
  show ?thesis using a b unfolding q_def[symmetric] Let_def by blast
qed

text \<open>
  Two operations enqueued: the first is running, the second waits. The timer of the
  second fires: it is rejected with the timeout error and does not start when the first
  finishes. The timer of the first cannot do anything.
\<close>

theorem queue_timeout_or_start_witness:
  "1 \<in> set (map ident (queue (qrun Inr [Enqueue 10, Enqueue 20]
      (emptyQueue :: (nat, nat) RequestQueue)))) \<and>
   0 \<in> set (started (qrun Inr [Enqueue 10, Enqueue 20] (emptyQueue :: (nat, nat) RequestQueue))) \<and>
   settled (timerFire 1 (qrun Inr [Enqueue 10, Enqueue 20] (emptyQueue :: (nat, nat) RequestQueue)))
     = [(1, ByQueue ''Request timeout while waiting in queue'')] \<and>
   1 \<notin> set (started (qrun Inr [Finish 0]
      (timerFire 1 (qrun Inr [Enqueue 10, Enqueue 20] (emptyQueue :: (nat, nat) RequestQueue))))) \<and>
   timerFire 0 (qrun Inr [Enqueue 10, Enqueue 20] (emptyQueue :: (nat, nat) RequestQueue))
     = qrun Inr [Enqueue 10, Enqueue 20] emptyQueue"
proof -
  let ?q = "qrun Inr [Enqueue 10, Enqueue 20] (emptyQueue :: (nat, nat) RequestQueue)"
  have w: "1 \<in> set (map ident (queue ?q))" and s: "0 \<in> set (started ?q)"
    and e: "settled ?q = []"
    by (simp_all add: qrun_def enqueue_def emptyQueue_def processNext_def maxQueueSize_def Let_def)
  from queue_timeout_or_start[where i = 1 and exec = Inr and evs = "[Enqueue 10, Enqueue 20]"] w
  have "settled (timerFire 1 ?q) = settled ?q @ [(1, ByQueue queueTimeoutMessage)]"
    and "1 \<notin> set (started (qrun Inr [Finish 0] (timerFire 1 ?q)))"
    unfolding Let_def by blast+
  moreover from queue_timeout_or_start[where i = 0 and exec = Inr and evs = "[Enqueue 10, Enqueue 20]"] s
  have "timerFire 0 ?q = ?q" unfolding Let_def by blast
  ultimately show ?thesis using w s e by (simp add: queueTimeoutMessage_def)
qed

text \<open>
  C3. When the waiting list holds at least \<open>maxQueueSize\<close> items, \<^verbatim>\<open>enqueue\<close> fails with
  the queue-full error and leaves the queue exactly as it was: no item is created, the
  waiting list is unchanged, and since the operation is stored nowhere, every later
  run of the queue is the run it would have been without the call.
\<close>

theorem queue_full_rejects:
  "maxQueueSize \<le> length (queue q) \<Longrightarrow>
   fst (enqueue op q) = Inl ''Queue is full (max 100 requests)'' \<and>
   snd (enqueue op q) = q \<and>
   (\<forall>evs. qrun exec evs (snd (enqueue op q)) = qrun exec evs q)"
  by (simp add: enqueue_full queueFullMessage_def)

text \<open>After 101 calls one operation runs and 100 wait: the next call is refused.\<close>

theorem queue_full_rejects_witness:
  "maxQueueSize \<le> length (queue (qrun Inr (replicate 101 (Enqueue 0))
      (emptyQueue :: (nat, nat) RequestQueue))) \<and>
   fst (enqueue 7 (qrun Inr (replicate 101 (Enqueue 0)) (emptyQueue :: (nat, nat) RequestQueue)))
     = Inl ''Queue is full (max 100 requests)'' \<and>
   snd (enqueue 7 (qrun Inr (replicate 101 (Enqueue 0)) (emptyQueue :: (nat, nat) RequestQueue)))
     = qrun Inr (replicate 101 (Enqueue 0)) emptyQueue"
proof -
  have h: "maxQueueSize \<le> length (queue (qrun Inr (replicate 101 (Enqueue 0))
      (emptyQueue :: (nat, nat) RequestQueue)))"
    by code_simp
  from queue_full_rejects[OF h, where op = 7 and exec = Inr] h show ?thesis by blast
qed

section \<open>The registry\<close>

lemma map_of_mapDelete: "map_of (mapDelete k m) k' = (if k' = k then None else map_of m k')"
  unfolding mapDelete_def by (induction m) auto

lemma registry_mapDelete: "registry m \<Longrightarrow> registry (mapDelete k m)"
  unfolding registry_def mapDelete_def by (auto simp: distinct_map_filter)

lemma set_mapSet: "set (mapSet k v m) \<subseteq> insert (k, v) (set m)"
  by (induction m) auto

lemma keys_mapSet: "set (map fst (mapSet k v m)) = insert k (set (map fst m))"
  by (induction m) auto

lemma distinct_mapSet: "distinct (map fst m) \<Longrightarrow> distinct (map fst (mapSet k v m))"
proof (induction m)
  case Nil
  then show ?case by simp
next
  case (Cons e m)
  have "fst e \<noteq> k \<Longrightarrow> fst e \<notin> set (map fst (mapSet k v m))"
    using Cons.prems unfolding keys_mapSet by simp
  with Cons show ?case by auto
qed

lemma registry_mapSet: "registry m \<Longrightarrow> sessionId v = k \<Longrightarrow> registry (mapSet k v m)"
  unfolding registry_def using set_mapSet[of k v m] by (auto simp: distinct_mapSet)

lemma map_of_mapSet: "map_of (mapSet k v m) k' = (if k' = k then Some v else map_of m k')"
  by (induction m) auto

lemma mapSet_fresh: "k \<notin> set (map fst m) \<Longrightarrow> mapSet k v m = m @ [(k, v)]"
  by (induction m) auto

lemma mapDelete_split:
  "distinct (map fst (before @ victim # after)) \<Longrightarrow>
   mapDelete (fst victim) (before @ victim # after) = before @ after"
proof -
  assume d: "distinct (map fst (before @ victim # after))"
  then have "fst victim \<notin> fst ` set before" "fst victim \<notin> fst ` set after"
    by auto
  then have "\<forall>e \<in> set before. fst e \<noteq> fst victim" "\<forall>e \<in> set after. fst e \<noteq> fst victim"
    by (metis imageI)+
  then have "filter (\<lambda>e. fst e \<noteq> fst victim) before = before"
    "filter (\<lambda>e. fst e \<noteq> fst victim) after = after"
    by (simp_all add: filter_id_conv)
  then show ?thesis unfolding mapDelete_def by simp
qed

lemma closeSession_present:
  "map_of (sessions sm) sid = Some s \<Longrightarrow>
   closeSession sid sm = (True, sm\<lparr>closedPages := closedPages sm @ [sessionPage s],
                    sessions := mapDelete sid (sessions sm)\<rparr>)"
  by (simp add: closeSession_def)

lemma closeSession_absent: "map_of (sessions sm) sid = None \<Longrightarrow> closeSession sid sm = (False, sm)"
  by (simp add: closeSession_def)

lemma registry_closeSession: "registry (sessions sm) \<Longrightarrow> registry (sessions (snd (closeSession sid sm)))"
  by (cases "map_of (sessions sm) sid")
     (simp_all add: closeSession_absent closeSession_present registry_mapDelete)

lemma fold_close:
  "distinct (map fst (sessions sm)) \<Longrightarrow> distinct ids \<Longrightarrow> set ids \<subseteq> set (map fst (sessions sm)) \<Longrightarrow>
   sessions (fold (\<lambda>sid m. snd (closeSession sid m)) ids sm)
     = filter (\<lambda>e. fst e \<notin> set ids) (sessions sm) \<and>
   closedPages (fold (\<lambda>sid m. snd (closeSession sid m)) ids sm)
     = closedPages sm @ map (\<lambda>k. sessionPage (the (map_of (sessions sm) k))) ids"
proof (induction ids arbitrary: sm)
  case Nil
  then show ?case by simp
next
  case (Cons k ks)
  from Cons.prems(3) have "k \<in> set (map fst (sessions sm))" by simp
  then obtain s where s: "map_of (sessions sm) k = Some s"
    by (metis map_of_eq_None_iff not_None_eq set_map)
  let ?sm = "sm\<lparr>closedPages := closedPages sm @ [sessionPage s],
                    sessions := mapDelete k (sessions sm)\<rparr>"
  have c: "snd (closeSession k sm) = ?sm" by (simp add: closeSession_present[OF s])
  have d: "distinct (map fst (sessions ?sm))"
    using Cons.prems(1) by (simp add: mapDelete_def distinct_map_filter)
  have ks: "distinct ks" "k \<notin> set ks" using Cons.prems(2) by auto
  have sub: "set ks \<subseteq> set (map fst (sessions ?sm))"
  proof
    fix x assume x: "x \<in> set ks"
    with Cons.prems(3) obtain e where "e \<in> set (sessions sm)" "fst e = x" by auto
    moreover from x ks(2) have "x \<noteq> k" by blast
    ultimately have "e \<in> set (mapDelete k (sessions sm))" by (simp add: mapDelete_def)
    with \<open>fst e = x\<close> show "x \<in> set (map fst (sessions ?sm))" by force
  qed
  note ih = Cons.IH[OF d ks(1) sub]
  have m: "map (\<lambda>k'. sessionPage (the (map_of (sessions ?sm) k'))) ks
         = map (\<lambda>k'. sessionPage (the (map_of (sessions sm) k'))) ks"
    using ks(2) by (auto simp: map_of_mapDelete)
  have f: "filter (\<lambda>e. fst e \<notin> set ks) (sessions ?sm)
         = filter (\<lambda>e. fst e \<notin> set (k # ks)) (sessions sm)"
    by (auto simp: mapDelete_def intro: filter_cong)
  show ?case using ih unfolding m f by (simp add: c s)
qed

lemma cleanup_sessions:
  assumes "distinct (map fst (sessions sm))"
  shows "sessions (cleanupExpiredSessions now sm) = filter (\<lambda>e. \<not> expired now e) (sessions sm)"
    and "closedPages (cleanupExpiredSessions now sm)
         = closedPages sm @ map (\<lambda>e. sessionPage (snd e)) (filter (expired now) (sessions sm))"
proof -
  let ?ids = "map fst (filter (expired now) (sessions sm))"
  have d: "distinct ?ids" using assms by (simp add: distinct_map_filter)
  have sub: "set ?ids \<subseteq> set (map fst (sessions sm))" by auto
  note f = fold_close[OF assms d sub]
  have a: "\<And>e. e \<in> set (sessions sm) \<Longrightarrow> (fst e \<notin> set ?ids) = (\<not> expired now e)"
  proof -
    fix e assume e: "e \<in> set (sessions sm)"
    show "(fst e \<notin> set ?ids) = (\<not> expired now e)"
    proof
      assume "fst e \<notin> set ?ids"
      with e show "\<not> expired now e" by force
    next
      assume n: "\<not> expired now e"
      show "fst e \<notin> set ?ids"
      proof
        assume "fst e \<in> set ?ids"
        then obtain e' where e': "e' \<in> set (sessions sm)" "expired now e'" "fst e' = fst e" by auto
        with e assms have "e' = e" by (metis eq_key_imp_eq_value prod.collapse)
        with n e'(2) show False by simp
      qed
    qed
  qed
  show "sessions (cleanupExpiredSessions now sm) = filter (\<lambda>e. \<not> expired now e) (sessions sm)"
    using f a unfolding cleanupExpiredSessions_def Let_def by (simp cong: filter_cong)
  have b: "\<And>e. e \<in> set (sessions sm) \<Longrightarrow> the (map_of (sessions sm) (fst e)) = snd e"
    using assms by (metis map_of_eq_Some_iff option.sel prod.collapse)
  show "closedPages (cleanupExpiredSessions now sm)
         = closedPages sm @ map (\<lambda>e. sessionPage (snd e)) (filter (expired now) (sessions sm))"
    using f b unfolding cleanupExpiredSessions_def Let_def by (simp add: comp_def)
qed

lemma registry_cleanup: "registry (sessions sm) \<Longrightarrow> registry (sessions (cleanupExpiredSessions now sm))"
  using cleanup_sessions(1)[of sm now] unfolding registry_def by (auto simp: distinct_map_filter)

lemma oldestOf_running:
  "\<exists>r. oldestOf (Some old) (map snd es) = Some r \<and>
     ((r = old \<and> (\<forall>e \<in> set es. lastActivityAt old \<le> lastActivityAt (snd e))) \<or>
      (\<exists>before victim after. es = before @ victim # after \<and> snd victim = r \<and>
         lastActivityAt r < lastActivityAt old \<and>
         (\<forall>e \<in> set before. lastActivityAt r < lastActivityAt (snd e)) \<and>
         (\<forall>e \<in> set after. lastActivityAt r \<le> lastActivityAt (snd e))))"
proof (induction es arbitrary: old)
  case Nil
  then show ?case by simp
next
  case (Cons e es)
  show ?case
  proof (cases "lastActivityAt (snd e) < lastActivityAt old")
    case True
    from Cons.IH[of "snd e"] obtain r where
      r: "oldestOf (Some (snd e)) (map snd es) = Some r" and
      d: "(r = snd e \<and> (\<forall>x \<in> set es. lastActivityAt (snd e) \<le> lastActivityAt (snd x))) \<or>
          (\<exists>before victim after. es = before @ victim # after \<and> snd victim = r \<and>
             lastActivityAt r < lastActivityAt (snd e) \<and>
             (\<forall>x \<in> set before. lastActivityAt r < lastActivityAt (snd x)) \<and>
             (\<forall>x \<in> set after. lastActivityAt r \<le> lastActivityAt (snd x)))"
      by blast
    have o: "oldestOf (Some old) (map snd (e # es)) = Some r" using True r by simp
    from d show ?thesis
    proof
      assume a: "r = snd e \<and> (\<forall>x \<in> set es. lastActivityAt (snd e) \<le> lastActivityAt (snd x))"
      then have "e # es = [] @ e # es \<and> snd e = r \<and> lastActivityAt r < lastActivityAt old \<and>
         (\<forall>x \<in> set []. lastActivityAt r < lastActivityAt (snd x)) \<and>
         (\<forall>x \<in> set es. lastActivityAt r \<le> lastActivityAt (snd x))"
        using True by simp
      with o show ?thesis by blast
    next
      assume "\<exists>before victim after. es = before @ victim # after \<and> snd victim = r \<and>
             lastActivityAt r < lastActivityAt (snd e) \<and>
             (\<forall>x \<in> set before. lastActivityAt r < lastActivityAt (snd x)) \<and>
             (\<forall>x \<in> set after. lastActivityAt r \<le> lastActivityAt (snd x))"
      then obtain before victim after where
        b: "es = before @ victim # after" "snd victim = r"
           "lastActivityAt r < lastActivityAt (snd e)"
           "\<forall>x \<in> set before. lastActivityAt r < lastActivityAt (snd x)"
           "\<forall>x \<in> set after. lastActivityAt r \<le> lastActivityAt (snd x)"
        by blast
      then have "e # es = (e # before) @ victim # after \<and> snd victim = r \<and>
         lastActivityAt r < lastActivityAt old \<and>
         (\<forall>x \<in> set (e # before). lastActivityAt r < lastActivityAt (snd x)) \<and>
         (\<forall>x \<in> set after. lastActivityAt r \<le> lastActivityAt (snd x))"
        using True by simp
      with o show ?thesis by blast
    qed
  next
    case False
    from Cons.IH[of old] obtain r where
      r: "oldestOf (Some old) (map snd es) = Some r" and
      d: "(r = old \<and> (\<forall>x \<in> set es. lastActivityAt old \<le> lastActivityAt (snd x))) \<or>
          (\<exists>before victim after. es = before @ victim # after \<and> snd victim = r \<and>
             lastActivityAt r < lastActivityAt old \<and>
             (\<forall>x \<in> set before. lastActivityAt r < lastActivityAt (snd x)) \<and>
             (\<forall>x \<in> set after. lastActivityAt r \<le> lastActivityAt (snd x)))"
      by blast
    have o: "oldestOf (Some old) (map snd (e # es)) = Some r" using False r by simp
    from d show ?thesis
    proof
      assume "r = old \<and> (\<forall>x \<in> set es. lastActivityAt old \<le> lastActivityAt (snd x))"
      then have "r = old \<and> (\<forall>x \<in> set (e # es). lastActivityAt old \<le> lastActivityAt (snd x))"
        using False by simp
      with o show ?thesis by blast
    next
      assume "\<exists>before victim after. es = before @ victim # after \<and> snd victim = r \<and>
             lastActivityAt r < lastActivityAt old \<and>
             (\<forall>x \<in> set before. lastActivityAt r < lastActivityAt (snd x)) \<and>
             (\<forall>x \<in> set after. lastActivityAt r \<le> lastActivityAt (snd x))"
      then obtain before victim after where
        b: "es = before @ victim # after" "snd victim = r"
           "lastActivityAt r < lastActivityAt old"
           "\<forall>x \<in> set before. lastActivityAt r < lastActivityAt (snd x)"
           "\<forall>x \<in> set after. lastActivityAt r \<le> lastActivityAt (snd x)"
        by blast
      then have "e # es = (e # before) @ victim # after \<and> snd victim = r \<and>
         lastActivityAt r < lastActivityAt old \<and>
         (\<forall>x \<in> set (e # before). lastActivityAt r < lastActivityAt (snd x)) \<and>
         (\<forall>x \<in> set after. lastActivityAt r \<le> lastActivityAt (snd x))"
        using False by simp
      with o show ?thesis by blast
    qed
  qed
qed

lemma getOldestSession_first_minimum:
  assumes "sessions sm \<noteq> []"
  shows "\<exists>before victim after. sessions sm = before @ victim # after \<and>
           getOldestSession sm = Some (snd victim) \<and>
           (\<forall>e \<in> set before. lastActivityAt (snd victim) < lastActivityAt (snd e)) \<and>
           (\<forall>e \<in> set after. lastActivityAt (snd victim) \<le> lastActivityAt (snd e))"
proof -
  from assms obtain e es where l: "sessions sm = e # es" by (cases "sessions sm") auto
  then have g: "getOldestSession sm = oldestOf (Some (snd e)) (map snd es)"
    by (simp add: getOldestSession_def)
  from oldestOf_running[of "snd e" es] obtain r where
    r: "oldestOf (Some (snd e)) (map snd es) = Some r" and
    d: "(r = snd e \<and> (\<forall>x \<in> set es. lastActivityAt (snd e) \<le> lastActivityAt (snd x))) \<or>
        (\<exists>before victim after. es = before @ victim # after \<and> snd victim = r \<and>
           lastActivityAt r < lastActivityAt (snd e) \<and>
           (\<forall>x \<in> set before. lastActivityAt r < lastActivityAt (snd x)) \<and>
           (\<forall>x \<in> set after. lastActivityAt r \<le> lastActivityAt (snd x)))"
    by blast
  from d show ?thesis
  proof
    assume "r = snd e \<and> (\<forall>x \<in> set es. lastActivityAt (snd e) \<le> lastActivityAt (snd x))"
    then have "sessions sm = [] @ e # es \<and> getOldestSession sm = Some (snd e) \<and>
        (\<forall>x \<in> set []. lastActivityAt (snd e) < lastActivityAt (snd x)) \<and>
        (\<forall>x \<in> set es. lastActivityAt (snd e) \<le> lastActivityAt (snd x))"
      using l g r by simp
    then show ?thesis by blast
  next
    assume "\<exists>before victim after. es = before @ victim # after \<and> snd victim = r \<and>
           lastActivityAt r < lastActivityAt (snd e) \<and>
           (\<forall>x \<in> set before. lastActivityAt r < lastActivityAt (snd x)) \<and>
           (\<forall>x \<in> set after. lastActivityAt r \<le> lastActivityAt (snd x))"
    then obtain before victim after where
      b: "es = before @ victim # after" "snd victim = r"
         "lastActivityAt r < lastActivityAt (snd e)"
         "\<forall>x \<in> set before. lastActivityAt r < lastActivityAt (snd x)"
         "\<forall>x \<in> set after. lastActivityAt r \<le> lastActivityAt (snd x)"
      by blast
    then have "sessions sm = (e # before) @ victim # after \<and>
        getOldestSession sm = Some (snd victim) \<and>
        (\<forall>x \<in> set (e # before). lastActivityAt (snd victim) < lastActivityAt (snd x)) \<and>
        (\<forall>x \<in> set after. lastActivityAt (snd victim) \<le> lastActivityAt (snd x))"
      using l g r by simp
    then show ?thesis by blast
  qed
qed

lemma createSession_state:
  "snd (createSession env sm) =
     (case fst (createSession env sm) of
        Inl err \<Rightarrow> makeRoom (sweepNow env) sm
      | Inr session \<Rightarrow>
          (makeRoom (sweepNow env) sm)
            \<lparr>sessions := mapSet (freshId env) session (sessions (makeRoom (sweepNow env) sm))\<rparr>)"
  by (simp add: createSession_def Let_def split: sum.splits option.splits)

section \<open>Claims about the session manager\<close>

text \<open>
  C4. Let \<^verbatim>\<open>createSession\<close> be called on a registry holding at least \<open>maxSessions\<close>
  sessions, and let the registry still hold that many after the idle sweep. Then the
  registry after the sweep splits around one victim: every session before it (in
  insertion order) has a strictly later last activity, every session after it a later
  or equal one, so the victim has the smallest \<open>lastActivityAt\<close> and is the first such
  session. Exactly its page is closed, the registry afterwards is the registry after
  the sweep without the victim, and the creation only adds the new session to that (or
  adds nothing when opening the page fails).
\<close>

theorem createSession_evicts_oldest:
  assumes "registry (sessions sm)"
    and "maxSessions \<le> length (sessions sm)"
    and "maxSessions \<le> length (sessions (cleanupExpiredSessions (sweepNow env) sm))"
  shows "\<exists>before victim after.
      sessions (cleanupExpiredSessions (sweepNow env) sm) = before @ victim # after \<and>
      (\<forall>e \<in> set before. lastActivityAt (snd victim) < lastActivityAt (snd e)) \<and>
      (\<forall>e \<in> set after. lastActivityAt (snd victim) \<le> lastActivityAt (snd e)) \<and>
      sessions (makeRoom (sweepNow env) sm) = before @ after \<and>
      closedPages (makeRoom (sweepNow env) sm) =
        closedPages (cleanupExpiredSessions (sweepNow env) sm) @ [sessionPage (snd victim)] \<and>
      sessions (snd (createSession env sm)) =
        (case fst (createSession env sm) of
           Inl err \<Rightarrow> before @ after
         | Inr session \<Rightarrow> mapSet (freshId env) session (before @ after))"
proof -
  let ?sm1 = "cleanupExpiredSessions (sweepNow env) sm"
  have reg: "registry (sessions ?sm1)" by (rule registry_cleanup[OF assms(1)])
  have "0 < maxSessions" by (simp add: maxSessions_def)
  with assms(3) have ne: "sessions ?sm1 \<noteq> []" by auto
  from getOldestSession_first_minimum[OF ne] obtain before victim after where
    b: "sessions ?sm1 = before @ victim # after"
       "getOldestSession ?sm1 = Some (snd victim)"
       "\<forall>e \<in> set before. lastActivityAt (snd victim) < lastActivityAt (snd e)"
       "\<forall>e \<in> set after. lastActivityAt (snd victim) \<le> lastActivityAt (snd e)"
    by blast
  have d: "distinct (map fst (before @ victim # after))" using reg b(1) by (simp add: registry_def)
  have key: "sessionId (snd victim) = fst victim" using reg b(1) by (simp add: registry_def)
  have "(fst victim, snd victim) \<in> set (sessions ?sm1)" using b(1) by simp
  then have look: "map_of (sessions ?sm1) (fst victim) = Some (snd victim)"
    using d b(1) by (simp only: map_of_eq_Some_iff)
  have mr: "makeRoom (sweepNow env) sm =
      ?sm1\<lparr>closedPages := closedPages ?sm1 @ [sessionPage (snd victim)],
           sessions := mapDelete (fst victim) (sessions ?sm1)\<rparr>"
    using assms(2,3) b(2) by (simp add: makeRoom_def Let_def key closeSession_present[OF look])
  have s: "sessions (makeRoom (sweepNow env) sm) = before @ after"
    unfolding mr using mapDelete_split[OF d] b(1) by simp
  have c: "closedPages (makeRoom (sweepNow env) sm) = closedPages ?sm1 @ [sessionPage (snd victim)]"
    unfolding mr by simp
  have f: "sessions (snd (createSession env sm)) =
        (case fst (createSession env sm) of
           Inl err \<Rightarrow> before @ after
         | Inr session \<Rightarrow> mapSet (freshId env) session (before @ after))"
    unfolding createSession_state[of env sm] s[symmetric] by (simp split: sum.splits)
  from b(1) b(3) b(4) s c f show ?thesis by blast
qed

text \<open>
  Ten sessions, none idle; pages 3 and 7 share the smallest last activity. The session
  of page 3, met first, is closed and the new session of page 10 is appended.
\<close>

theorem createSession_evicts_oldest_witness:
  "let sm = \<lparr> sessions = map (\<lambda>i. (replicate (Suc i) CHR ''s'',
                  \<lparr> sessionId = replicate (Suc i) CHR ''s'', sessionPage = i, createdAt = 0,
                    lastActivityAt = (if i = 3 \<or> i = 7 then 5 else 9), messageCount = 0 \<rparr>))
                [0..<10],
              closedPages = [] \<rparr>;
       env = \<lparr> sweepNow = 10, newPage = Inr 10, freshId = ''new'', createNow = 10,
               gotoError = None \<rparr>
   in registry (sessions sm) \<and> maxSessions \<le> length (sessions sm) \<and>
      maxSessions \<le> length (sessions (cleanupExpiredSessions (sweepNow env) sm)) \<and>
      closedPages (makeRoom (sweepNow env) sm) = [3] \<and>
      map (\<lambda>e. sessionPage (snd e)) (sessions (snd (createSession env sm)))
        = [0, 1, 2, 4, 5, 6, 7, 8, 9, 10] \<and>
      (\<exists>before victim after.
         sessions (cleanupExpiredSessions (sweepNow env) sm) = before @ victim # after \<and>
         sessions (makeRoom (sweepNow env) sm) = before @ after)"
proof -
  define sm where "sm = \<lparr> sessions = map (\<lambda>i. (replicate (Suc i) CHR ''s'',
                  \<lparr> sessionId = replicate (Suc i) CHR ''s'', sessionPage = i, createdAt = 0,
                    lastActivityAt = (if i = 3 \<or> i = 7 then 5 else 9), messageCount = 0 \<rparr>))
                [0..<10],
              closedPages = [] \<rparr>"
  define env where "env = \<lparr> sweepNow = 10, newPage = Inr 10, freshId = ''new'', createNow = 10,
               gotoError = None \<rparr>"
  have h1: "registry (sessions sm)" unfolding sm_def by code_simp
  have h2: "maxSessions \<le> length (sessions sm)" unfolding sm_def by code_simp
  have h3: "maxSessions \<le> length (sessions (cleanupExpiredSessions (sweepNow env) sm))"
    unfolding sm_def env_def by code_simp
  have c1: "closedPages (makeRoom (sweepNow env) sm) = [3]"
    unfolding sm_def env_def by code_simp
  have c2: "map (\<lambda>e. sessionPage (snd e)) (sessions (snd (createSession env sm)))
        = [0, 1, 2, 4, 5, 6, 7, 8, 9, 10]"
    unfolding sm_def env_def by code_simp
  from createSession_evicts_oldest[OF h1 h2 h3]
  have "\<exists>before victim after.
         sessions (cleanupExpiredSessions (sweepNow env) sm) = before @ victim # after \<and>
         sessions (makeRoom (sweepNow env) sm) = before @ after"
    by blast
  with h1 h2 h3 c1 c2 show ?thesis unfolding sm_def env_def Let_def by blast
qed

section \<open>Claims about the page interaction\<close>

lemma selectModelOnPage_swallows:
  "pressKey page ''Escape'' = None \<Longrightarrow> selectModelOnPage page model = Inr ()"
  by (simp add: selectModelOnPage_def split: sum.splits)

lemma selectModelOnPage_button_absent:
  "query page ModelSelectorButton = Inr False \<Longrightarrow> selectModelOnPage page model = Inr ()"
  by (simp add: selectModelOnPage_def selectModelBody_def)

lemma startNewChatOnPage_swallows: "startNewChatOnPage page = Inr ()"
  by (simp add: startNewChatOnPage_def split: sum.splits)

lemma chatCompletionOnPage_first_proceeds:
  "ensureOnCopilot page = Inr () \<Longrightarrow> pressKey page ''Escape'' = None \<Longrightarrow>
   chatCompletionOnPage page msg model True = sendMessageOnPage page msg"
  by (simp add: chatCompletionOnPage_def startNewChatOnPage_swallows selectModelOnPage_swallows)

text \<open>
  C5. A page on which the model selector is found, the click on it throws and the
  Escape key press of the error handler throws as well: \<^verbatim>\<open>selectModelOnPage\<close> does
  not return normally but throws the error of the key press, and the exchange ends
  with that error although submitting the message would have produced a response.
\<close>

theorem selectModel_escape_failure_propagates:
  "let page = \<lparr> onCopilot = True, goto = None, query = (\<lambda>s. Inr True),
                 click = (\<lambda>s. if s = ModelSelectorButton
                               then Some ''Timeout 30000ms exceeded'' else None),
                 waitForSelector = (\<lambda>s. None),
                 pressKey = (\<lambda>k. Some ''Target page, context or browser has been closed''),
                 queryAll = (\<lambda>s. Inr [\<lparr> textContent = Inr (Some ''hello'') \<rparr>]),
                 typeAndSubmit = (\<lambda>m. None), awaitCompletion = None \<rparr>
   in selectModelBody page (Model Auto) = Inl ''Timeout 30000ms exceeded'' \<and>
      selectModelOnPage page (Model Auto)
        = Inl ''Target page, context or browser has been closed'' \<and>
      chatCompletionOnPage page ''hi'' (Model Auto) True
        = Inl ''Target page, context or browser has been closed'' \<and>
      sendMessageOnPage page ''hi'' = Inr ''hello''"
  by (simp add: Let_def selectModelBody_def selectModelOnPage_def chatCompletionOnPage_def
        ensureOnCopilot_def startNewChatOnPage_def sendMessageOnPage_def
        extractLastResponseFromPage_def trim_def isWhiteSpace_def)

lemma trim_Nil: "trim [] = []"
  by (simp add: trim_def)

lemma trySelectors_first:
  "trySelectors page sels =
     (case List.map_filter (strategyText page) sels of [] \<Rightarrow> None | text # others \<Rightarrow> Some text)"
proof (induction sels)
  case Nil
  then show ?case by (simp add: List.map_filter_simps)
next
  case (Cons sel sels)
  have "trim [] = []" by (rule trim_Nil)
  then have t: "\<And>text. trim text \<noteq> [] \<Longrightarrow> text \<noteq> []" by auto
  show ?case using Cons t
    by (auto simp: List.map_filter_simps strategyText_def split: sum.splits option.splits list.splits)
qed

lemma fallbackText_strategy:
  "fallbackText page \<noteq> Some [] \<Longrightarrow> fallbackText page = strategyText page AnyMessage"
  using trim_Nil
  by (auto simp: fallbackText_def strategyText_def split: sum.splits option.splits if_splits)

lemma map_filter_append: "List.map_filter f (xs @ ys) = List.map_filter f xs @ List.map_filter f ys"
  by (simp add: List.map_filter_def)

lemma extract_refines_spec:
  assumes "fallbackText page \<noteq> Some []"
  shows "extractLastResponseFromPage page = specExtract page"
proof -
  have "List.map_filter (strategyText page)
          [LastAssistantMessage, AssistantMessage, ResponseContainer, AnyMessage]
        = List.map_filter (strategyText page)
            [LastAssistantMessage, AssistantMessage, ResponseContainer]
          @ List.map_filter (strategyText page) [AnyMessage]"
    using map_filter_append[of "strategyText page"
        "[LastAssistantMessage, AssistantMessage, ResponseContainer]" "[AnyMessage]"]
    by simp
  then show ?thesis
    unfolding extractLastResponseFromPage_def specExtract_def trySelectors_first
      fallbackText_strategy[OF assms]
    by (simp add: List.map_filter_simps split: list.splits option.splits)
qed

text \<open>
  C6. A page on which the three selectors match nothing and the last message-shaped
  element holds a single space: the fallback accepts the text because it is not
  empty and returns its trimmed form, the empty string, where the extraction as
  specified finds no strategy with a non-empty match and fails.
\<close>

theorem extract_fallback_returns_empty:
  "let page = \<lparr> onCopilot = True, goto = None, query = (\<lambda>s. Inr True), click = (\<lambda>s. None),
                 waitForSelector = (\<lambda>s. None), pressKey = (\<lambda>k. None),
                 queryAll = (\<lambda>s. if s = AnyMessage
                                  then Inr [\<lparr> textContent = Inr (Some '' '') \<rparr>] else Inr []),
                 typeAndSubmit = (\<lambda>m. None), awaitCompletion = None \<rparr>
   in extractLastResponseFromPage page = Inr [] \<and>
      specExtract page = Inl ''Could not extract response from page''"
  by (simp add: Let_def extractLastResponseFromPage_def fallbackText_def specExtract_def
        strategyText_def List.map_filter_simps trim_def isWhiteSpace_def
        extractionFailedMessage_def)

section \<open>Claims about the chat-completion handler\<close>


lemma model_not_found_when_unmapped:
  assumes "reqMessages req = Some msgs" "msgs \<noteq> []" "\<not> reqStream req"
    and "reqModel req = Some name" "name \<noteq> []" "mapModelName name = None"
  shows "handleChatCompletion req now env sys =
     (Responded (ErrorResponse 400
        (''Model '' @ [CHR 0x27] @ name @ [CHR 0x27] @
         '' is not supported. Available models: '' @
         ''copilot-auto, copilot-quick, copilot-think, gpt-5.2-quick, gpt-5.2-think'')
        ''invalid_request_error'' ''model_not_found''), sys)"
  using assms
  by (simp add: handleChatCompletion_def unsupportedModel_def truthy_def isValidModel_def
        createModelNotFoundError_def availableModelNames_def)

text \<open>
  C8. A request whose model is \<^verbatim>\<open>constructor\<close>: the name is no key of the model mapping,
  but the lookup finds the member of \<^verbatim>\<open>Object.prototype\<close>, so the name counts as valid.
  The handler does not answer 400: it creates a session and enqueues an exchange whose
  model is that member.
\<close>

theorem model_constructor_accepted:
  "let req = \<lparr> reqModel = Some ''constructor'',
                reqMessages = Some [\<lparr> role = ''user'', content = ''hi'' \<rparr>],
                reqStream = False, reqSessionId = None \<rparr>;
       env = \<lparr> sweepNow = 0, newPage = Inr 1, freshId = ''s1'', createNow = 0,
               gotoError = None \<rparr>
   in map_of modelMapping ''constructor'' = None \<and>
      mapModelName ''constructor'' = Some (ProtoMember ''constructor'') \<and>
      isValidModel ''constructor'' \<and>
      fst (handleChatCompletion req 0 env emptySystem) = Awaiting 0 \<and>
      map fst (sessions (manager (snd (handleChatCompletion req 0 env emptySystem)))) = [''s1''] \<and>
      map (\<lambda>it. jobModel (execute it))
        (executing (requests (snd (handleChatCompletion req 0 env emptySystem))))
        = [ProtoMember ''constructor'']"
  by code_simp






section \<open>Claims about sessions and running exchanges\<close>

lemma closeSession_submap:
  "map_of (sessions (snd (closeSession sid sm))) k = Some s \<Longrightarrow> map_of (sessions sm) k = Some s"
  by (cases "map_of (sessions sm) sid")
     (auto simp: closeSession_absent closeSession_present map_of_mapDelete split: if_splits)

lemma fold_close_submap:
  "map_of (sessions (fold (\<lambda>sid m. snd (closeSession sid m)) ids sm)) k = Some s \<Longrightarrow>
   map_of (sessions sm) k = Some s"
  by (induction ids arbitrary: sm) (auto dest: closeSession_submap)

lemma cleanup_submap:
  "map_of (sessions (cleanupExpiredSessions now sm)) k = Some s \<Longrightarrow> map_of (sessions sm) k = Some s"
  unfolding cleanupExpiredSessions_def Let_def by (rule fold_close_submap)

lemma makeRoom_submap:
  "map_of (sessions (makeRoom now sm)) k = Some s \<Longrightarrow> map_of (sessions sm) k = Some s"
  unfolding makeRoom_def Let_def
  by (auto split: if_splits option.splits dest: cleanup_submap closeSession_submap)

lemma countsKept_createSession:
  assumes "freshId env \<notin> set (map fst (sessions sm))"
  shows "countsKept sm (snd (createSession env sm))"
  unfolding countsKept_def
proof (intro allI impI)
  fix k s s'
  assume a: "map_of (sessions sm) k = Some s \<and>
             map_of (sessions (snd (createSession env sm))) k = Some s'"
  from assms have "map_of (sessions sm) (freshId env) = None"
    by (simp add: map_of_eq_None_iff)
  with a have ne: "k \<noteq> freshId env" by auto
  have "map_of (sessions (snd (createSession env sm))) k
        = map_of (sessions (makeRoom (sweepNow env) sm)) k"
    unfolding createSession_state[of env sm] using ne
    by (simp add: map_of_mapSet split: sum.splits)
  with a have "map_of (sessions sm) k = Some s'" using makeRoom_submap by metis
  with a show "messageCount s' = messageCount s" by simp
qed

lemma countsKept_getOrCreateSession:
  assumes "freshId env \<notin> set (map fst (sessions sm))"
  shows "countsKept sm (snd (getOrCreateSession requested now env sm))"
proof (cases "truthy requested")
  case None
  then show ?thesis using countsKept_createSession[OF assms]
    by (simp add: getOrCreateSession_def)
next
  case (Some sid)
  show ?thesis
  proof (cases "map_of (sessions sm) sid")
    case None
    then show ?thesis using Some countsKept_createSession[OF assms]
      by (simp add: getOrCreateSession_def)
  next
    case (Some existing)
    then show ?thesis using \<open>truthy requested = Some sid\<close>
      by (auto simp: getOrCreateSession_def countsKept_def map_of_mapSet split: if_splits)
  qed
qed

lemma manager_handleChatCompletion:
  "manager (snd (handleChatCompletion req now env sys)) = manager sys \<or>
   manager (snd (handleChatCompletion req now env sys))
     = snd (getOrCreateSession (reqSessionId req) now env (manager sys))"
  by (auto simp: handleChatCompletion_def Let_def
      split: option.splits sum.splits prod.splits if_splits)

lemma countsKept_refl: "countsKept sm sm"
  by (auto simp: countsKept_def)

lemma countsKept_handleChatCompletion:
  assumes "freshId env \<notin> set (map fst (sessions (manager sys)))"
  shows "countsKept (manager sys) (manager (snd (handleChatCompletion req now env sys)))"
  using manager_handleChatCompletion[of req now env sys]
    countsKept_getOrCreateSession[OF assms] countsKept_refl by metis

lemma manager_handleSettled_success:
  "manager (handleSettled job (ByOperation (Inr text)) now sys)
     = touchSession (jobSession job) now (manager sys)"
  by (simp add: handleSettled_def)

lemma manager_handleSettled_failure:
  "manager (handleSettled job (ByOperation (Inl err)) now sys) = manager sys"
  "manager (handleSettled job (ByQueue err) now sys) = manager sys"
  by (simp_all add: handleSettled_def)

lemma touchSession_counts:
  assumes "map_of (sessions sm) k = Some s" "map_of (sessions (touchSession sid now sm)) k = Some s'"
  shows "messageCount s' = messageCount s + (if sid = k then 1 else 0)"
  using assms
  by (cases "map_of (sessions sm) sid") (auto simp: touchSession_def map_of_mapSet split: if_splits)

lemma closeSession_segments:
  "closeSession sid sm =
     (case closeBegin sid sm of
        (True, sm') \<Rightarrow> (True, closeEnd sid sm')
      | (False, sm') \<Rightarrow> (False, sm'))"
  by (simp add: closeSession_def closeBegin_def closeEnd_def split: option.splits)

lemma sweepFinish_sweepNext:
  "sweepFinish (sweepNext ids sm) = fold (\<lambda>sid m. snd (closeSession sid m)) ids sm"
proof (induction ids arbitrary: sm)
  case Nil
  then show ?case by (simp add: sweepNext_def)
next
  case (Cons sid rest)
  show ?case
  proof (cases "map_of (sessions sm) sid")
    case None
    then have "sweepNext (sid # rest) sm = (Some \<lparr> closing = None, marked = rest \<rparr>, sm)"
      by (simp add: sweepNext_def closeBegin_def)
    then show ?thesis using None Cons.IH[of sm]
      by (simp add: sweepResume_def closeSession_absent)
  next
    case (Some session)
    let ?sm = "sm\<lparr>closedPages := closedPages sm @ [sessionPage session]\<rparr>"
    have "sweepNext (sid # rest) sm = (Some \<lparr> closing = Some sid, marked = rest \<rparr>, ?sm)"
      using Some by (simp add: sweepNext_def closeBegin_def)
    moreover have "closeEnd sid ?sm = snd (closeSession sid sm)"
      using Some by (simp add: closeEnd_def closeSession_present)
    ultimately show ?thesis using Cons.IH[of "snd (closeSession sid sm)"]
      by (simp add: sweepResume_def)
  qed
qed

lemma sweepFinish_sweepBegin: "sweepFinish (sweepBegin now sm) = cleanupExpiredSessions now sm"
  by (simp add: sweepBegin_def cleanupExpiredSessions_def sweepFinish_sweepNext)

lemma sweepNext_sessions: "sessions (snd (sweepNext ids sm)) = sessions sm"
  by (simp add: sweepNext_def closeBegin_def split: list.splits option.splits)

lemma sweepBegin_sessions: "sessions (snd (sweepBegin now sm)) = sessions sm"
  by (simp add: sweepBegin_def sweepNext_sessions)

lemma sweepResume_sessions:
  "sessions (snd (sweepResume task sm)) =
     (case closing task of None \<Rightarrow> sessions sm | Some sid \<Rightarrow> mapDelete sid (sessions sm))"
  by (simp add: sweepResume_def sweepNext_sessions closeEnd_def split: option.splits)

lemma manager_idleSweep:
  "manager (sstep pages (IdleSweep now) sys) = snd (sweepBegin now (manager sys))"
  by (cases "sweepBegin now (manager sys)"; cases "fst (sweepBegin now (manager sys))") auto

lemma manager_sweepResume:
  "n < length (sweeps sys) \<Longrightarrow>
   manager (sstep pages (SweepResume n) sys) = snd (sweepResume (sweeps sys ! n) (manager sys))"
  by (cases "sweepResume (sweeps sys ! n) (manager sys)";
      cases "fst (sweepResume (sweeps sys ! n) (manager sys))") auto

lemma sweepBegin_expired:
  assumes "distinct (map fst (sessions sm))"
  shows "sweepBegin now sm =
     (case filter (expired now) (sessions sm) of
        [] \<Rightarrow> (None, sm)
      | e # es \<Rightarrow> (Some \<lparr> closing = Some (fst e), marked = map fst es \<rparr>,
                   sm\<lparr>closedPages := closedPages sm @ [sessionPage (snd e)]\<rparr>))"
proof (cases "filter (expired now) (sessions sm)")
  case Nil
  then show ?thesis by (simp add: sweepBegin_def sweepNext_def)
next
  case (Cons e es)
  then have "e \<in> set (filter (expired now) (sessions sm))" by simp
  then have "e \<in> set (sessions sm)" by simp
  then have "(fst e, snd e) \<in> set (sessions sm)" by simp
  then have "map_of (sessions sm) (fst e) = Some (snd e)"
    using assms by (simp only: map_of_eq_Some_iff)
  then show ?thesis using Cons by (simp add: sweepBegin_def sweepNext_def closeBegin_def)
qed

text \<open>
  C7, as amended. The idle sweep does not consult the request queue, and it is not one
  step. Its first segment reads the clock, marks exactly the registered sessions whose
  last activity lies more than 30 minutes (1800000 ms) before that reading, and calls
  \<^verbatim>\<open>page.close()\<close> on the first of them; no entry is deleted yet and the queue is left
  as it is. Each later segment deletes the entry whose page close was awaited and goes
  on to the next marked identifier: if a session is registered under it, its page is
  closed, whatever its last activity is by then and whatever the queue is executing.
  A session that was not marked at the clock reading is not closed by that sweep.
\<close>

theorem idle_sweep_ignores_queue:
  assumes "distinct (map fst (sessions (manager sys)))"
  shows "requests (sstep pages (IdleSweep now) sys) = requests sys \<and>
     sessions (manager (sstep pages (IdleSweep now) sys)) = sessions (manager sys) \<and>
     (case filter (\<lambda>e. now - lastActivityAt (snd e) > 1800000) (sessions (manager sys)) of
        [] \<Rightarrow> sweeps (sstep pages (IdleSweep now) sys) = sweeps sys \<and>
              closedPages (manager (sstep pages (IdleSweep now) sys)) = closedPages (manager sys)
      | e # es \<Rightarrow>
          sweeps (sstep pages (IdleSweep now) sys)
            = sweeps sys @ [\<lparr> closing = Some (fst e), marked = map fst es \<rparr>] \<and>
          closedPages (manager (sstep pages (IdleSweep now) sys))
            = closedPages (manager sys) @ [sessionPage (snd e)]) \<and>
     (n < length (sweeps sys) \<longrightarrow>
        requests (sstep pages (SweepResume n) sys) = requests sys \<and>
        sessions (manager (sstep pages (SweepResume n) sys))
          = (case closing (sweeps sys ! n) of
               None \<Rightarrow> sessions (manager sys)
             | Some sid \<Rightarrow> mapDelete sid (sessions (manager sys))) \<and>
        (case marked (sweeps sys ! n) of
           [] \<Rightarrow> closedPages (manager (sstep pages (SweepResume n) sys)) = closedPages (manager sys) \<and>
                 sweeps (sstep pages (SweepResume n) sys)
                   = take n (sweeps sys) @ drop (Suc n) (sweeps sys)
         | sid # rest \<Rightarrow>
             (case map_of (sessions (manager (sstep pages (SweepResume n) sys))) sid of
                None \<Rightarrow>
                  closedPages (manager (sstep pages (SweepResume n) sys))
                    = closedPages (manager sys) \<and>
                  sweeps (sstep pages (SweepResume n) sys)
                    = (sweeps sys)[n := \<lparr> closing = None, marked = rest \<rparr>]
              | Some s \<Rightarrow>
                  closedPages (manager (sstep pages (SweepResume n) sys))
                    = closedPages (manager sys) @ [sessionPage s] \<and>
                  sweeps (sstep pages (SweepResume n) sys)
                    = (sweeps sys)[n := \<lparr> closing = Some sid, marked = rest \<rparr>])))"
proof -
  have e: "expired now = (\<lambda>e. now - lastActivityAt (snd e) > 1800000)"
    by (rule ext) (simp add: expired_def timeoutMs_def)
  note b = sweepBegin_expired[OF assms, of now, unfolded e]
  have a1: "requests (sstep pages (IdleSweep now) sys) = requests sys"
    by (simp split: prod.splits option.splits)
  have a2: "sessions (manager (sstep pages (IdleSweep now) sys)) = sessions (manager sys)"
    by (simp only: manager_idleSweep sweepBegin_sessions)
  have a3: "case filter (\<lambda>e. now - lastActivityAt (snd e) > 1800000) (sessions (manager sys)) of
        [] \<Rightarrow> sweeps (sstep pages (IdleSweep now) sys) = sweeps sys \<and>
              closedPages (manager (sstep pages (IdleSweep now) sys)) = closedPages (manager sys)
      | e # es \<Rightarrow>
          sweeps (sstep pages (IdleSweep now) sys)
            = sweeps sys @ [\<lparr> closing = Some (fst e), marked = map fst es \<rparr>] \<and>
          closedPages (manager (sstep pages (IdleSweep now) sys))
            = closedPages (manager sys) @ [sessionPage (snd e)]"
    by (simp add: b split: list.splits)
  have r: "n < length (sweeps sys) \<longrightarrow>
        requests (sstep pages (SweepResume n) sys) = requests sys \<and>
        sessions (manager (sstep pages (SweepResume n) sys))
          = (case closing (sweeps sys ! n) of
               None \<Rightarrow> sessions (manager sys)
             | Some sid \<Rightarrow> mapDelete sid (sessions (manager sys))) \<and>
        (case marked (sweeps sys ! n) of
           [] \<Rightarrow> closedPages (manager (sstep pages (SweepResume n) sys)) = closedPages (manager sys) \<and>
                 sweeps (sstep pages (SweepResume n) sys)
                   = take n (sweeps sys) @ drop (Suc n) (sweeps sys)
         | sid # rest \<Rightarrow>
             (case map_of (sessions (manager (sstep pages (SweepResume n) sys))) sid of
                None \<Rightarrow>
                  closedPages (manager (sstep pages (SweepResume n) sys))
                    = closedPages (manager sys) \<and>
                  sweeps (sstep pages (SweepResume n) sys)
                    = (sweeps sys)[n := \<lparr> closing = None, marked = rest \<rparr>]
              | Some s \<Rightarrow>
                  closedPages (manager (sstep pages (SweepResume n) sys))
                    = closedPages (manager sys) @ [sessionPage s] \<and>
                  sweeps (sstep pages (SweepResume n) sys)
                    = (sweeps sys)[n := \<lparr> closing = Some sid, marked = rest \<rparr>]))"
  proof
    assume n: "n < length (sweeps sys)"
    let ?task = "sweeps sys ! n"
    let ?sm = "case closing ?task of None \<Rightarrow> manager sys | Some sid \<Rightarrow> closeEnd sid (manager sys)"
    have sm: "sessions ?sm = (case closing ?task of
               None \<Rightarrow> sessions (manager sys)
             | Some sid \<Rightarrow> mapDelete sid (sessions (manager sys)))"
      and cp: "closedPages ?sm = closedPages (manager sys)"
      by (simp_all add: closeEnd_def split: option.splits)
    have r1: "requests (sstep pages (SweepResume n) sys) = requests sys"
      using n by (simp split: prod.splits option.splits)
    have r2: "sessions (manager (sstep pages (SweepResume n) sys)) = sessions ?sm"
      using n by (simp only: manager_sweepResume sweepResume_sessions sm)
    have r3: "case marked ?task of
           [] \<Rightarrow> closedPages (manager (sstep pages (SweepResume n) sys)) = closedPages (manager sys) \<and>
                 sweeps (sstep pages (SweepResume n) sys)
                   = take n (sweeps sys) @ drop (Suc n) (sweeps sys)
         | sid # rest \<Rightarrow>
             (case map_of (sessions ?sm) sid of
                None \<Rightarrow>
                  closedPages (manager (sstep pages (SweepResume n) sys))
                    = closedPages (manager sys) \<and>
                  sweeps (sstep pages (SweepResume n) sys)
                    = (sweeps sys)[n := \<lparr> closing = None, marked = rest \<rparr>]
              | Some s \<Rightarrow>
                  closedPages (manager (sstep pages (SweepResume n) sys))
                    = closedPages (manager sys) @ [sessionPage s] \<and>
                  sweeps (sstep pages (SweepResume n) sys)
                    = (sweeps sys)[n := \<lparr> closing = Some sid, marked = rest \<rparr>])"
      using n cp
      by (simp add: sweepResume_def sweepNext_def closeBegin_def
            split: list.splits option.splits)
    show "requests (sstep pages (SweepResume n) sys) = requests sys \<and>
        sessions (manager (sstep pages (SweepResume n) sys))
          = (case closing (sweeps sys ! n) of
               None \<Rightarrow> sessions (manager sys)
             | Some sid \<Rightarrow> mapDelete sid (sessions (manager sys))) \<and>
        (case marked (sweeps sys ! n) of
           [] \<Rightarrow> closedPages (manager (sstep pages (SweepResume n) sys)) = closedPages (manager sys) \<and>
                 sweeps (sstep pages (SweepResume n) sys)
                   = take n (sweeps sys) @ drop (Suc n) (sweeps sys)
         | sid # rest \<Rightarrow>
             (case map_of (sessions (manager (sstep pages (SweepResume n) sys))) sid of
                None \<Rightarrow>
                  closedPages (manager (sstep pages (SweepResume n) sys))
                    = closedPages (manager sys) \<and>
                  sweeps (sstep pages (SweepResume n) sys)
                    = (sweeps sys)[n := \<lparr> closing = None, marked = rest \<rparr>]
              | Some s \<Rightarrow>
                  closedPages (manager (sstep pages (SweepResume n) sys))
                    = closedPages (manager sys) @ [sessionPage s] \<and>
                  sweeps (sstep pages (SweepResume n) sys)
                    = (sweeps sys)[n := \<lparr> closing = Some sid, marked = rest \<rparr>]))"
      using r1 r3 unfolding r2 sm by simp
  qed
  from a1 a2 a3 r show ?thesis by simp
qed

text \<open>
  Two sessions \<^verbatim>\<open>A\<close> and \<^verbatim>\<open>B\<close>, last active at 1 and 3. A sweep reading 1800005 marks
  both and calls \<^verbatim>\<open>page.close()\<close> on page 1 of \<^verbatim>\<open>A\<close>. While that is awaited a request
  reuses \<^verbatim>\<open>B\<close>. The sweep resumes: \<^verbatim>\<open>A\<close> is deleted and page 2 of \<^verbatim>\<open>B\<close> is closed.
\<close>

theorem idle_sweep_ignores_queue_witness:
  "let pages = (\<lambda>p. \<lparr> onCopilot = True, goto = None, query = (\<lambda>s. Inr True),
                click = (\<lambda>s. None), waitForSelector = (\<lambda>s. None), pressKey = (\<lambda>k. None),
                queryAll = (\<lambda>s. Inr [\<lparr> textContent = Inr (Some ''hello'') \<rparr>]),
                typeAndSubmit = (\<lambda>m. None), awaitCompletion = None \<rparr>);
       sys0 = srun pages
               [ChatRequest \<lparr> reqModel = None,
                              reqMessages = Some [\<lparr> role = ''user'', content = ''hi'' \<rparr>],
                              reqStream = False, reqSessionId = None \<rparr> 0
                            \<lparr> sweepNow = 0, newPage = Inr 1, freshId = ''A'', createNow = 0,
                              gotoError = None \<rparr>,
                ExchangeDone 0 1,
                ChatRequest \<lparr> reqModel = None,
                              reqMessages = Some [\<lparr> role = ''user'', content = ''hi'' \<rparr>],
                              reqStream = False, reqSessionId = None \<rparr> 2
                            \<lparr> sweepNow = 2, newPage = Inr 2, freshId = ''B'', createNow = 2,
                              gotoError = None \<rparr>,
                ExchangeDone 1 3] emptySystem;
       sys1 = srun pages
               [IdleSweep 1800005,
                ChatRequest \<lparr> reqModel = None,
                              reqMessages = Some [\<lparr> role = ''user'', content = ''again'' \<rparr>],
                              reqStream = False, reqSessionId = Some ''B'' \<rparr> 1800006
                            \<lparr> sweepNow = 1800006, newPage = Inr 3, freshId = ''C'',
                              createNow = 1800006, gotoError = None \<rparr>] sys0
   in distinct (map fst (sessions (manager sys0))) \<and>
      map fst (filter (\<lambda>e. 1800005 - lastActivityAt (snd e) > 1800000) (sessions (manager sys0)))
        = [''A'', ''B''] \<and>
      sweeps (sstep pages (IdleSweep 1800005) sys0) = [\<lparr> closing = Some ''A'', marked = [''B''] \<rparr>] \<and>
      closedPages (manager (sstep pages (IdleSweep 1800005) sys0)) = [1] \<and>
      distinct (map fst (sessions (manager sys1))) \<and>
      0 < length (sweeps sys1) \<and>
      map fst (sessions (manager (sstep pages (SweepResume 0) sys1))) = [''B''] \<and>
      closedPages (manager (sstep pages (SweepResume 0) sys1)) = [1, 2]"
proof -
  let ?pages = "(\<lambda>p. \<lparr> onCopilot = True, goto = None, query = (\<lambda>s. Inr True),
                click = (\<lambda>s. None), waitForSelector = (\<lambda>s. None), pressKey = (\<lambda>k. None),
                queryAll = (\<lambda>s. Inr [\<lparr> textContent = Inr (Some ''hello'') \<rparr>]),
                typeAndSubmit = (\<lambda>m. None), awaitCompletion = None \<rparr>)"
  let ?sys0 = "srun ?pages
               [ChatRequest \<lparr> reqModel = None,
                              reqMessages = Some [\<lparr> role = ''user'', content = ''hi'' \<rparr>],
                              reqStream = False, reqSessionId = None \<rparr> 0
                            \<lparr> sweepNow = 0, newPage = Inr 1, freshId = ''A'', createNow = 0,
                              gotoError = None \<rparr>,
                ExchangeDone 0 1,
                ChatRequest \<lparr> reqModel = None,
                              reqMessages = Some [\<lparr> role = ''user'', content = ''hi'' \<rparr>],
                              reqStream = False, reqSessionId = None \<rparr> 2
                            \<lparr> sweepNow = 2, newPage = Inr 2, freshId = ''B'', createNow = 2,
                              gotoError = None \<rparr>,
                ExchangeDone 1 3] emptySystem"
  let ?sys1 = "srun ?pages
               [IdleSweep 1800005,
                ChatRequest \<lparr> reqModel = None,
                              reqMessages = Some [\<lparr> role = ''user'', content = ''again'' \<rparr>],
                              reqStream = False, reqSessionId = Some ''B'' \<rparr> 1800006
                            \<lparr> sweepNow = 1800006, newPage = Inr 3, freshId = ''C'',
                              createNow = 1800006, gotoError = None \<rparr>] ?sys0"
  have st0: "sessions (manager ?sys0) =
      [(''A'', \<lparr> sessionId = ''A'', sessionPage = 1, createdAt = 0, lastActivityAt = 1,
                 messageCount = 1 \<rparr>),
       (''B'', \<lparr> sessionId = ''B'', sessionPage = 2, createdAt = 2, lastActivityAt = 3,
                 messageCount = 1 \<rparr>)]"
    and sw0: "sweeps ?sys0 = []" and cp0: "closedPages (manager ?sys0) = []"
    by code_simp+
  have st1: "sessions (manager ?sys1) =
      [(''A'', \<lparr> sessionId = ''A'', sessionPage = 1, createdAt = 0, lastActivityAt = 1,
                 messageCount = 1 \<rparr>),
       (''B'', \<lparr> sessionId = ''B'', sessionPage = 2, createdAt = 2, lastActivityAt = 1800006,
                 messageCount = 1 \<rparr>)]"
    and sw1: "sweeps ?sys1 = [\<lparr> closing = Some ''A'', marked = [''B''] \<rparr>]"
    and cp1: "closedPages (manager ?sys1) = [1]"
    by code_simp+
  have d0: "distinct (map fst (sessions (manager ?sys0)))" unfolding st0 by simp
  have d1: "distinct (map fst (sessions (manager ?sys1)))" unfolding st1 by simp
  have n1: "0 < length (sweeps ?sys1)" unfolding sw1 by simp
  have f0: "map fst (filter (\<lambda>e. 1800005 - lastActivityAt (snd e) > 1800000)
      (sessions (manager ?sys0))) = [''A'', ''B'']"
    unfolding st0 by simp
  note t0 = idle_sweep_ignores_queue[OF d0, where pages = ?pages and now = 1800005 and n = 0,
      THEN conjunct2, THEN conjunct2, THEN conjunct1, unfolded st0 sw0 cp0]
  have i0: "sweeps (sstep ?pages (IdleSweep 1800005) ?sys0)
              = [\<lparr> closing = Some ''A'', marked = [''B''] \<rparr>] \<and>
            closedPages (manager (sstep ?pages (IdleSweep 1800005) ?sys0)) = [1]"
    using t0 by simp
  note t1 = idle_sweep_ignores_queue[OF d1, where pages = ?pages and now = 0 and n = 0,
      THEN conjunct2, THEN conjunct2, THEN conjunct2, THEN mp, OF n1]
  have s1: "sessions (manager (sstep ?pages (SweepResume 0) ?sys1)) =
      [(''B'', \<lparr> sessionId = ''B'', sessionPage = 2, createdAt = 2, lastActivityAt = 1800006,
                 messageCount = 1 \<rparr>)]"
    using t1[THEN conjunct2, THEN conjunct1] unfolding sw1 st1 by (simp add: mapDelete_def)
  have c1: "closedPages (manager (sstep ?pages (SweepResume 0) ?sys1)) = [1, 2]"
    using t1[THEN conjunct2, THEN conjunct2] unfolding s1 sw1 cp1 by simp
  have k1: "map fst (sessions (manager (sstep ?pages (SweepResume 0) ?sys1))) = [''B'']"
    unfolding s1 by simp
  note i0a = i0[THEN conjunct1] and i0b = i0[THEN conjunct2]
  show ?thesis unfolding Let_def using d0 f0 i0a i0b d1 n1 k1 c1 by (intro conjI) assumption+
qed

text \<open>
  The claim as stated fails. The sessions \<^verbatim>\<open>A\<close> and \<^verbatim>\<open>B\<close> have been idle for more than
  30 minutes when the sweep reads the clock and calls \<^verbatim>\<open>page.close()\<close> on the page of
  \<^verbatim>\<open>A\<close>. While the sweep awaits it, a request reuses \<^verbatim>\<open>B\<close>: its last activity is set
  to 1800006 and its exchange starts on page 2. The sweep resumes, deletes \<^verbatim>\<open>A\<close> and
  closes page 2, against which the exchange is executing; its next segment deletes
  \<^verbatim>\<open>B\<close> with the exchange still executing.
\<close>

theorem idle_sweep_closes_running_counterexample:
  "let pages = (\<lambda>p. \<lparr> onCopilot = True, goto = None, query = (\<lambda>s. Inr True),
                click = (\<lambda>s. None), waitForSelector = (\<lambda>s. None), pressKey = (\<lambda>k. None),
                queryAll = (\<lambda>s. Inr [\<lparr> textContent = Inr (Some ''hello'') \<rparr>]),
                typeAndSubmit = (\<lambda>m. None), awaitCompletion = None \<rparr>);
       sys = srun pages
               ([ChatRequest \<lparr> reqModel = None,
                              reqMessages = Some [\<lparr> role = ''user'', content = ''hi'' \<rparr>],
                              reqStream = False, reqSessionId = None \<rparr> 0
                            \<lparr> sweepNow = 0, newPage = Inr 1, freshId = ''A'', createNow = 0,
                              gotoError = None \<rparr>,
                ExchangeDone 0 1,
                ChatRequest \<lparr> reqModel = None,
                              reqMessages = Some [\<lparr> role = ''user'', content = ''hi'' \<rparr>],
                              reqStream = False, reqSessionId = None \<rparr> 2
                            \<lparr> sweepNow = 2, newPage = Inr 2, freshId = ''B'', createNow = 2,
                              gotoError = None \<rparr>,
                ExchangeDone 1 3] @
               [IdleSweep 1800005,
                ChatRequest \<lparr> reqModel = None,
                              reqMessages = Some [\<lparr> role = ''user'', content = ''again'' \<rparr>],
                              reqStream = False, reqSessionId = Some ''B'' \<rparr> 1800006
                            \<lparr> sweepNow = 1800006, newPage = Inr 3, freshId = ''C'',
                              createNow = 1800006, gotoError = None \<rparr>,
                SweepResume 0]) emptySystem
   in map (\<lambda>it. jobPage (execute it)) (executing (requests sys)) = [2] \<and>
      processing (requests sys) \<and>
      map_option sessionPage (map_of (sessions (manager sys)) ''B'') = Some 2 \<and>
      map_option lastActivityAt (map_of (sessions (manager sys)) ''B'') = Some 1800006 \<and>
      closedPages (manager sys) = [1, 2] \<and>
      sessions (manager (sstep pages (SweepResume 0) sys)) = [] \<and>
      map (\<lambda>it. jobPage (execute it)) (executing (requests (sstep pages (SweepResume 0) sys))) = [2]"
  by code_simp

lemma manager_chatRequest:
  "manager (sstep pages (ChatRequest req now env) sys)
     = manager (snd (handleChatCompletion req now env sys))"
  by (cases "handleChatCompletion req now env sys"; cases "fst (handleChatCompletion req now env sys)")
     auto

lemma manager_queueTimer: "manager (queueTimer i now sys) = manager sys"
  by (simp add: queueTimer_def handleSettled_def split: option.splits)

lemma step_counts:
  assumes "eventFresh ev sys"
    and "map_of (sessions (manager sys)) k = Some s"
    and "map_of (sessions (manager (sstep pages ev sys))) k = Some s'"
  shows "messageCount s' = messageCount s + (if succeededFor pages ev sys k then 1 else 0)"
proof (cases ev)
  case (ChatRequest req now env)
  with assms(1) have "freshId env \<notin> set (map fst (sessions (manager sys)))" by simp
  note ck = countsKept_handleChatCompletion[OF this, of req now]
  have m: "manager (sstep pages ev sys) = manager (snd (handleChatCompletion req now env sys))"
    unfolding ChatRequest by (rule manager_chatRequest)
  from assms(3) have "map_of (sessions (manager (snd (handleChatCompletion req now env sys)))) k
      = Some s'" unfolding m .
  with ck assms(2) have "messageCount s' = messageCount s" unfolding countsKept_def by blast
  then show ?thesis using ChatRequest by simp
next
  case (ExchangeDone i now)
  show ?thesis
  proof (cases "find (\<lambda>it. ident it = i) (executing (requests sys))")
    case None
    with assms(2,3) ExchangeDone show ?thesis by (simp add: exchangeDone_def)
  next
    case (Some item)
    show ?thesis
    proof (cases "runJob pages (execute item)")
      case (Inl err)
      with Some assms(2,3) ExchangeDone show ?thesis
        by (simp add: exchangeDone_def manager_handleSettled_failure)
    next
      case (Inr reply)
      with Some ExchangeDone have "manager (sstep pages ev sys)
          = touchSession (jobSession (execute item)) now (manager sys)"
        by (simp add: exchangeDone_def manager_handleSettled_success)
      with assms(3) have "map_of (sessions (touchSession (jobSession (execute item)) now
          (manager sys))) k = Some s'" by simp
      from touchSession_counts[OF assms(2) this] Some Inr ExchangeDone
      show ?thesis by simp
    qed
  qed
next
  case (QueueTimer i now)
  with assms(2,3) show ?thesis by (simp add: manager_queueTimer)
next
  case (IdleSweep now)
  have "sessions (manager (sstep pages ev sys)) = sessions (manager sys)"
    unfolding IdleSweep by (simp only: manager_idleSweep sweepBegin_sessions)
  with assms(2,3) IdleSweep show ?thesis by simp
next
  case (SweepResume n)
  show ?thesis
  proof (cases "n < length (sweeps sys)")
    case False
    with assms(2,3) SweepResume show ?thesis by simp
  next
    case True
    have "sessions (manager (sstep pages ev sys)) =
        (case closing (sweeps sys ! n) of
           None \<Rightarrow> sessions (manager sys)
         | Some sid \<Rightarrow> mapDelete sid (sessions (manager sys)))"
      unfolding SweepResume by (simp only: manager_sweepResume[OF True] sweepResume_sessions)
    with assms(3) have "map_of (sessions (manager sys)) k = Some s'"
      by (auto simp: map_of_mapDelete split: option.splits if_splits)
    with assms(2) SweepResume show ?thesis by simp
  qed
next
  case (DeleteSession sid)
  have "manager (sstep pages (DeleteSession sid) sys) = snd (closeSession sid (manager sys))"
    by (cases "closeSession sid (manager sys)"; cases "fst (closeSession sid (manager sys))")
       (auto simp: handleDeleteSession_def)
  with assms(3) DeleteSession
  have "map_of (sessions (snd (closeSession sid (manager sys)))) k = Some s'" by simp
  from closeSession_submap[OF this] assms(2) DeleteSession show ?thesis by simp
qed

text \<open>
  C9, as amended. When the promise of the queue is settled with a result, the handler
  touches the session of the request: if it is still registered, its message count goes
  up by exactly one (and its last activity is set); if it is no longer registered, the
  registry is left as it is. When the promise is rejected, by the exchange or by the
  queue, the registry is left as it is. And over every event of the server (with a
  fresh identifier for a new session), a session registered before and after has its
  message count raised by one if the event is the successful end of an exchange
  enqueued for it, and unchanged otherwise; so a message count never decreases.
\<close>

theorem messageCount_once_per_completed_exchange:
  "(\<forall>s. map_of (sessions (manager sys)) (jobSession job) = Some s \<longrightarrow>
       sessions (manager (handleSettled job (ByOperation (Inr text)) now sys)) =
         mapSet (jobSession job)
           (s\<lparr>lastActivityAt := now, messageCount := messageCount s + 1\<rparr>)
           (sessions (manager sys))) \<and>
   (map_of (sessions (manager sys)) (jobSession job) = None \<longrightarrow>
       manager (handleSettled job (ByOperation (Inr text)) now sys) = manager sys) \<and>
   manager (handleSettled job (ByOperation (Inl err)) now sys) = manager sys \<and>
   manager (handleSettled job (ByQueue err) now sys) = manager sys \<and>
   (eventFresh ev sys \<longrightarrow>
      (\<forall>k s s'. map_of (sessions (manager sys)) k = Some s \<and>
                map_of (sessions (manager (sstep pages ev sys))) k = Some s' \<longrightarrow>
          messageCount s' = messageCount s + (if succeededFor pages ev sys k then 1 else 0)))"
proof -
  have a: "\<forall>s. map_of (sessions (manager sys)) (jobSession job) = Some s \<longrightarrow>
       sessions (manager (handleSettled job (ByOperation (Inr text)) now sys)) =
         mapSet (jobSession job)
           (s\<lparr>lastActivityAt := now, messageCount := messageCount s + 1\<rparr>)
           (sessions (manager sys))"
    by (simp add: manager_handleSettled_success touchSession_def)
  have b: "map_of (sessions (manager sys)) (jobSession job) = None \<longrightarrow>
       manager (handleSettled job (ByOperation (Inr text)) now sys) = manager sys"
    by (simp add: manager_handleSettled_success touchSession_def)
  have c: "eventFresh ev sys \<longrightarrow>
      (\<forall>k s s'. map_of (sessions (manager sys)) k = Some s \<and>
                map_of (sessions (manager (sstep pages ev sys))) k = Some s' \<longrightarrow>
          messageCount s' = messageCount s + (if succeededFor pages ev sys k then 1 else 0))"
    using step_counts by blast
  from a b c manager_handleSettled_failure show ?thesis by blast
qed

text \<open>
  A request creates the session \<^verbatim>\<open>s1\<close> with message count 0 and its exchange starts;
  the exchange ends with a response: the count is 1.
\<close>

theorem messageCount_once_per_completed_exchange_witness:
  "let pages = (\<lambda>p. \<lparr> onCopilot = True, goto = None, query = (\<lambda>s. Inr True),
                click = (\<lambda>s. None), waitForSelector = (\<lambda>s. None), pressKey = (\<lambda>k. None),
                queryAll = (\<lambda>s. Inr [\<lparr> textContent = Inr (Some ''hello'') \<rparr>]),
                typeAndSubmit = (\<lambda>m. None), awaitCompletion = None \<rparr>);
       sys = srun pages
               [ChatRequest \<lparr> reqModel = None,
                              reqMessages = Some [\<lparr> role = ''user'', content = ''hi'' \<rparr>],
                              reqStream = False, reqSessionId = None \<rparr> 0
                            \<lparr> sweepNow = 0, newPage = Inr 1, freshId = ''s1'', createNow = 0,
                              gotoError = None \<rparr>] emptySystem
   in eventFresh (ExchangeDone 0 3) sys \<and>
      succeededFor pages (ExchangeDone 0 3) sys ''s1'' \<and>
      (\<exists>s s'. map_of (sessions (manager sys)) ''s1'' = Some s \<and>
              map_of (sessions (manager (sstep pages (ExchangeDone 0 3) sys))) ''s1'' = Some s' \<and>
              messageCount s = 0 \<and> messageCount s' = 1)"
proof -
  let ?pages = "(\<lambda>p. \<lparr> onCopilot = True, goto = None, query = (\<lambda>s. Inr True),
                click = (\<lambda>s. None), waitForSelector = (\<lambda>s. None), pressKey = (\<lambda>k. None),
                queryAll = (\<lambda>s. Inr [\<lparr> textContent = Inr (Some ''hello'') \<rparr>]),
                typeAndSubmit = (\<lambda>m. None), awaitCompletion = None \<rparr>)"
  let ?sys = "srun ?pages
               [ChatRequest \<lparr> reqModel = None,
                              reqMessages = Some [\<lparr> role = ''user'', content = ''hi'' \<rparr>],
                              reqStream = False, reqSessionId = None \<rparr> 0
                            \<lparr> sweepNow = 0, newPage = Inr 1, freshId = ''s1'', createNow = 0,
                              gotoError = None \<rparr>] emptySystem"
  have f: "eventFresh (ExchangeDone 0 3) ?sys" by simp
  have g: "succeededFor ?pages (ExchangeDone 0 3) ?sys ''s1''" by code_simp
  have b: "map_of (sessions (manager ?sys)) ''s1'' = Some \<lparr> sessionId = ''s1'', sessionPage = 1,
               createdAt = 0, lastActivityAt = 0, messageCount = 0 \<rparr>"
    by code_simp
  have "map_of (sessions (manager (sstep ?pages (ExchangeDone 0 3) ?sys))) ''s1'' \<noteq> None"
    by code_simp
  then obtain s' where
    a: "map_of (sessions (manager (sstep ?pages (ExchangeDone 0 3) ?sys))) ''s1'' = Some s'"
    by blast
  note t = messageCount_once_per_completed_exchange
    [where ev = "ExchangeDone 0 3" and sys = ?sys and pages = ?pages]
  note c = t[THEN conjunct2, THEN conjunct2, THEN conjunct2, THEN conjunct2, THEN mp, OF f,
    rule_format, OF conjI, OF b a]
  have m1: "messageCount s' = 1" unfolding c using g by simp
  have e: "\<exists>s s'. map_of (sessions (manager ?sys)) ''s1'' = Some s \<and>
              map_of (sessions (manager (sstep ?pages (ExchangeDone 0 3) ?sys))) ''s1'' = Some s' \<and>
              messageCount s = 0 \<and> messageCount s' = 1"
    by (rule exI[where x = "\<lparr> sessionId = ''s1'', sessionPage = 1,
               createdAt = 0, lastActivityAt = 0, messageCount = 0 \<rparr>"], rule exI[where x = s'],
        intro conjI, rule b, rule a, simp, rule m1)
  show ?thesis unfolding Let_def by (intro conjI, rule f, rule g, rule e)
qed

text \<open>
  The claim as stated fails. A request creates the session \<^verbatim>\<open>s1\<close> and its exchange
  starts; the session is deleted through the API while the exchange runs; the exchange
  ends with a response and the client is answered with the completion. The session is
  no longer registered when the handler touches it, so no message count is incremented
  for the completed exchange.
\<close>

theorem messageCount_deleted_session_counterexample:
  "let pages = (\<lambda>p. \<lparr> onCopilot = True, goto = None, query = (\<lambda>s. Inr True),
                click = (\<lambda>s. None), waitForSelector = (\<lambda>s. None), pressKey = (\<lambda>k. None),
                queryAll = (\<lambda>s. Inr [\<lparr> textContent = Inr (Some ''hello'') \<rparr>]),
                typeAndSubmit = (\<lambda>m. None), awaitCompletion = None \<rparr>);
       evs = [ChatRequest \<lparr> reqModel = None,
                              reqMessages = Some [\<lparr> role = ''user'', content = ''hi'' \<rparr>],
                              reqStream = False, reqSessionId = None \<rparr> 0
                            \<lparr> sweepNow = 0, newPage = Inr 1, freshId = ''s1'', createNow = 0,
                              gotoError = None \<rparr>,
              DeleteSession ''s1''];
       sys = srun pages evs emptySystem
   in map (\<lambda>it. jobSession (execute it)) (executing (requests sys)) = [''s1''] \<and>
      sessions (manager sys) = [] \<and>
      settled (requests (sstep pages (ExchangeDone 0 3) sys)) = [(0, ByOperation (Inr ''hello''))] \<and>
      responses (sstep pages (ExchangeDone 0 3) sys) =
        [SessionClosed ''s1'', ChatCompletion ''copilot-auto'' ''hello'' ''s1''] \<and>
      manager (sstep pages (ExchangeDone 0 3) sys) = manager sys"
  by code_simp

end
